theory Spec2Isabelle
  imports Main "HOL-Library.Word" "HOL-Library.List_Lexorder"
begin

section \<open>Veritas RAG: the artifact subsystem\<close>

text \<open>
  A Python \<open>str\<close> is modelled as the list of its Unicode code points, \<open>bytes\<close> as a list
  of 8-bit words. Exceptions are values: every function that can raise returns
  \<open>py_error + 'a\<close>.
\<close>

type_synonym byte = "8 word"
type_synonym bytes = "byte list"
type_synonym pystr = "nat list"

datatype py_error =
    ValueError
  | StructError
  | UnicodeDecodeError
  | UnicodeEncodeError
  | IndexError
  | ZstdError
  | JSONDecodeError
  | FileNotFoundError
  | OSError
  | ManifestMismatch

definition bind_err :: "py_error + 'a \<Rightarrow> ('a \<Rightarrow> py_error + 'b) \<Rightarrow> py_error + 'b" where
  "bind_err m f = (case m of Inl e \<Rightarrow> Inl e | Inr x \<Rightarrow> f x)"

definition str_of :: "string \<Rightarrow> pystr" where
  "str_of s = map of_char s"

subsection \<open>hashlib\<close>

text \<open>
  SHA-256 itself is the library's: it is a parameter \<open>sha\<close> of type
  \<open>bytes \<Rightarrow> 256 word\<close>. \<open>hexdigest\<close> writes the 32 digest bytes, most significant
  first, as two lowercase hexadecimal digits each.
\<close>

type_synonym sha256_fun = "bytes \<Rightarrow> 256 word"

definition hex_digit :: "nat \<Rightarrow> nat" where
  "hex_digit d = (if d < 10 then 48 + d else 87 + d)"

definition hex_byte :: "nat \<Rightarrow> pystr" where
  "hex_byte b = [hex_digit (b div 16), hex_digit (b mod 16)]"

definition digest_bytes :: "256 word \<Rightarrow> nat list" where
  "digest_bytes w = map (\<lambda>i. unat (drop_bit (8 * (31 - i)) w) mod 256) [0..<32]"

definition hexdigest :: "256 word \<Rightarrow> pystr" where
  "hexdigest w = concat (map hex_byte (digest_bytes w))"

subsection \<open>UTF-8\<close>

text \<open>
  \<open>str.encode("utf-8")\<close> raises on a lone surrogate; \<open>bytes.decode("utf-8")\<close> is
  strict: it rejects overlong forms, surrogates, code points past U+10FFFF and
  truncated sequences.
\<close>

definition is_cont :: "byte \<Rightarrow> bool" where
  "is_cont b = (128 \<le> unat b \<and> unat b < 192)"

definition encode_cp :: "nat \<Rightarrow> bytes option" where
  "encode_cp c =
     (if c < 128 then Some [of_nat c]
      else if c < 2048 then Some [of_nat (192 + c div 64), of_nat (128 + c mod 64)]
      else if 55296 \<le> c \<and> c < 57344 then None
      else if c < 65536 then
        Some [of_nat (224 + c div 4096), of_nat (128 + c div 64 mod 64), of_nat (128 + c mod 64)]
      else if c < 1114112 then
        Some [of_nat (240 + c div 262144), of_nat (128 + c div 4096 mod 64),
              of_nat (128 + c div 64 mod 64), of_nat (128 + c mod 64)]
      else None)"

fun utf8_encode :: "pystr \<Rightarrow> py_error + bytes" where
  "utf8_encode [] = Inr []"
| "utf8_encode (c # cs) =
     (case encode_cp c of
        None \<Rightarrow> Inl UnicodeEncodeError
      | Some bs \<Rightarrow> bind_err (utf8_encode cs) (\<lambda>r. Inr (bs @ r)))"

definition cons_cp :: "nat \<Rightarrow> py_error + pystr \<Rightarrow> py_error + pystr" where
  "cons_cp c m = bind_err m (\<lambda>r. Inr (c # r))"

fun utf8_decode :: "bytes \<Rightarrow> py_error + pystr" where
  "utf8_decode [] = Inr []"
| "utf8_decode (b # bs) =
     (if unat b < 128 then cons_cp (unat b) (utf8_decode bs)
      else if 194 \<le> unat b \<and> unat b < 224 then
        (case bs of
           b1 # r \<Rightarrow>
             if is_cont b1
             then cons_cp ((unat b - 192) * 64 + (unat b1 - 128)) (utf8_decode r)
             else Inl UnicodeDecodeError
         | _ \<Rightarrow> Inl UnicodeDecodeError)
      else if 224 \<le> unat b \<and> unat b < 240 then
        (case bs of
           b1 # b2 # r \<Rightarrow>
             if is_cont b1 \<and> is_cont b2
                \<and> 2048 \<le> (unat b - 224) * 4096 + (unat b1 - 128) * 64 + (unat b2 - 128)
                \<and> \<not> (55296 \<le> (unat b - 224) * 4096 + (unat b1 - 128) * 64 + (unat b2 - 128)
                      \<and> (unat b - 224) * 4096 + (unat b1 - 128) * 64 + (unat b2 - 128) < 57344)
             then cons_cp ((unat b - 224) * 4096 + (unat b1 - 128) * 64 + (unat b2 - 128))
                    (utf8_decode r)
             else Inl UnicodeDecodeError
         | _ \<Rightarrow> Inl UnicodeDecodeError)
      else if 240 \<le> unat b \<and> unat b < 245 then
        (case bs of
           b1 # b2 # b3 # r \<Rightarrow>
             if is_cont b1 \<and> is_cont b2 \<and> is_cont b3
                \<and> 65536 \<le> (unat b - 240) * 262144 + (unat b1 - 128) * 4096
                              + (unat b2 - 128) * 64 + (unat b3 - 128)
                \<and> (unat b - 240) * 262144 + (unat b1 - 128) * 4096
                     + (unat b2 - 128) * 64 + (unat b3 - 128) < 1114112
             then cons_cp ((unat b - 240) * 262144 + (unat b1 - 128) * 4096
                            + (unat b2 - 128) * 64 + (unat b3 - 128)) (utf8_decode r)
             else Inl UnicodeDecodeError
         | _ \<Rightarrow> Inl UnicodeDecodeError)
      else Inl UnicodeDecodeError)"

subsection \<open>struct, format \<open><32s32s32sQIIBQQIii\<close>\<close>

text \<open>
  Little-endian, no padding. An integer outside the range of its field makes
  \<open>struct.pack\<close> raise; \<open>32s\<close> truncates or pads with NUL to 32 bytes.
\<close>

fun le_bytes :: "nat \<Rightarrow> nat \<Rightarrow> bytes" where
  "le_bytes 0 v = []"
| "le_bytes (Suc k) v = of_nat (v mod 256) # le_bytes k (v div 256)"

fun le_value :: "bytes \<Rightarrow> nat" where
  "le_value [] = 0"
| "le_value (b # bs) = unat b + 256 * le_value bs"

definition pack_unsigned :: "nat \<Rightarrow> int \<Rightarrow> py_error + bytes" where
  "pack_unsigned k v =
     (if 0 \<le> v \<and> v < 2 ^ (8 * k) then Inr (le_bytes k (nat v)) else Inl StructError)"

definition pack_signed :: "nat \<Rightarrow> int \<Rightarrow> py_error + bytes" where
  "pack_signed k v =
     (if - (2 ^ (8 * k - 1)) \<le> v \<and> v < 2 ^ (8 * k - 1)
      then Inr (le_bytes k (nat (v mod 2 ^ (8 * k)))) else Inl StructError)"

definition unpack_unsigned :: "bytes \<Rightarrow> int" where
  "unpack_unsigned bs = int (le_value bs)"

definition unpack_signed :: "bytes \<Rightarrow> int" where
  "unpack_signed bs =
     (if 2 ^ (8 * length bs - 1) \<le> int (le_value bs)
      then int (le_value bs) - 2 ^ (8 * length bs) else int (le_value bs))"

definition ljust :: "nat \<Rightarrow> byte \<Rightarrow> bytes \<Rightarrow> bytes" where
  "ljust n fill bs = bs @ replicate (n - length bs) fill"

definition pack_s :: "nat \<Rightarrow> bytes \<Rightarrow> bytes" where
  "pack_s n bs = ljust n 0 (take n bs)"

definition rstrip_nul :: "bytes \<Rightarrow> bytes" where
  "rstrip_nul bs = rev (dropWhile (\<lambda>b. b = 0) (rev bs))"

record index_fields =
  f_chunk_id :: bytes
  f_doc_uid :: bytes
  f_doc_id :: bytes
  f_store_offset :: int
  f_length :: int
  f_checksum :: int
  f_is_active :: int
  f_offset_start :: int
  f_offset_end :: int
  f_chunk_index :: int
  f_page_start :: int
  f_page_end :: int

definition INDEX_RECORD_SIZE :: nat where
  "INDEX_RECORD_SIZE = 32 + 32 + 32 + 8 + 4 + 4 + 1 + 8 + 8 + 4 + 4 + 4"

definition struct_pack :: "index_fields \<Rightarrow> py_error + bytes" where
  "struct_pack r =
     bind_err (pack_unsigned 8 (f_store_offset r)) (\<lambda>b4.
     bind_err (pack_unsigned 4 (f_length r)) (\<lambda>b5.
     bind_err (pack_unsigned 4 (f_checksum r)) (\<lambda>b6.
     bind_err (pack_unsigned 1 (f_is_active r)) (\<lambda>b7.
     bind_err (pack_unsigned 8 (f_offset_start r)) (\<lambda>b8.
     bind_err (pack_unsigned 8 (f_offset_end r)) (\<lambda>b9.
     bind_err (pack_unsigned 4 (f_chunk_index r)) (\<lambda>b10.
     bind_err (pack_signed 4 (f_page_start r)) (\<lambda>b11.
     bind_err (pack_signed 4 (f_page_end r)) (\<lambda>b12.
       Inr (pack_s 32 (f_chunk_id r) @ pack_s 32 (f_doc_uid r) @ pack_s 32 (f_doc_id r)
            @ b4 @ b5 @ b6 @ b7 @ b8 @ b9 @ b10 @ b11 @ b12))))))))))"

definition slice :: "nat \<Rightarrow> nat \<Rightarrow> 'a list \<Rightarrow> 'a list" where
  "slice i j xs = take (j - i) (drop i xs)"

definition struct_unpack :: "bytes \<Rightarrow> py_error + index_fields" where
  "struct_unpack bs =
     (if length bs \<noteq> INDEX_RECORD_SIZE then Inl StructError
      else Inr \<lparr> f_chunk_id = slice 0 32 bs, f_doc_uid = slice 32 64 bs,
                 f_doc_id = slice 64 96 bs,
                 f_store_offset = unpack_unsigned (slice 96 104 bs),
                 f_length = unpack_unsigned (slice 104 108 bs),
                 f_checksum = unpack_unsigned (slice 108 112 bs),
                 f_is_active = unpack_unsigned (slice 112 113 bs),
                 f_offset_start = unpack_unsigned (slice 113 121 bs),
                 f_offset_end = unpack_unsigned (slice 121 129 bs),
                 f_chunk_index = unpack_unsigned (slice 129 133 bs),
                 f_page_start = unpack_signed (slice 133 137 bs),
                 f_page_end = unpack_signed (slice 137 141 bs) \<rparr>)"

subsection \<open>core/contracts.py\<close>

text \<open>
  The fields \<open>section_path\<close> and \<open>metadata\<close> are always \<open>None\<close> and \<open>{}\<close> in the
  code below and are left out. The field \<open>text\<close> of a chunk is \<open>chunk_text\<close> here.
\<close>

record SourceRef =
  sr_source_path :: pystr
  sr_offset_start :: int
  sr_offset_end :: int
  sr_page_start :: "int option"
  sr_page_end :: "int option"

record Chunk =
  chunk_id :: pystr
  doc_uid :: pystr
  doc_id :: pystr
  chunk_text :: pystr
  offset_start :: int
  offset_end :: int
  chunk_index :: int
  source_ref :: SourceRef
  page_start :: "int option"
  page_end :: "int option"

record Page =
  page_number :: int
  page_text :: pystr
  page_offset_start :: int
  page_offset_end :: int

record Document =
  d_doc_uid :: pystr
  d_doc_id :: pystr
  d_source_path :: pystr
  raw_text :: pystr
  normalized_text :: pystr
  title :: "pystr option"
  pages :: "Page list option"

record Config =
  chunk_size :: int
  chunk_overlap :: int
  bm25_use_stopwords :: bool
  zstd_level :: int

subsection \<open>storage/compression.py and the libraries of the chunk store\<close>

text \<open>
  zstandard, xxhash and json are libraries: their functions are the fields of a record
  that the store's operations take as a parameter.
\<close>

record doc_info =
  di_doc_id :: "pystr option"
  di_source_path :: "pystr option"

record libs =
  zstd_compress :: "int \<Rightarrow> bytes \<Rightarrow> bytes"
  zstd_decompress :: "bytes \<Rightarrow> py_error + bytes"
  xxh32_intdigest :: "bytes \<Rightarrow> 32 word"
  json_load_meta :: "bytes \<Rightarrow> py_error + (pystr \<times> doc_info) list"

definition compress_data :: "libs \<Rightarrow> bytes \<Rightarrow> int \<Rightarrow> bytes" where
  "compress_data L data level = zstd_compress L level data"

definition decompress_data :: "libs \<Rightarrow> bytes \<Rightarrow> py_error + bytes" where
  "decompress_data L compressed_data = zstd_decompress L compressed_data"

subsection \<open>storage/chunk-store.py\<close>

text \<open>
  The record of the in-memory index (a dictionary in the code), and the store: its three
  files (\<open>None\<close> when the file does not exist) and its three in-memory maps.
\<close>

record index_record =
  rec_doc_uid :: pystr
  rec_doc_id :: pystr
  rec_store_offset :: int
  rec_length :: int
  rec_checksum :: int
  rec_is_active :: bool
  rec_offset_start :: int
  rec_offset_end :: int
  rec_chunk_index :: int
  rec_page_start :: "int option"
  rec_page_end :: "int option"

record ChunkStore =
  chunks_bin :: "bytes option"
  chunks_idx :: "bytes option"
  docs_meta :: "bytes option"
  index :: "pystr \<rightharpoonup> index_record"
  doc_uid_to_chunks :: "pystr \<rightharpoonup> pystr list"
  doc_id_to_source_path :: "pystr \<rightharpoonup> pystr"

definition file_size :: "bytes option \<Rightarrow> nat" where
  "file_size f = (case f of None \<Rightarrow> 0 | Some bs \<Rightarrow> length bs)"

definition append_file :: "bytes option \<Rightarrow> bytes \<Rightarrow> bytes option" where
  "append_file f data = (case f of None \<Rightarrow> Some data | Some bs \<Rightarrow> Some (bs @ data))"

definition none_to_minus1 :: "int option \<Rightarrow> int" where
  "none_to_minus1 p = (case p of None \<Rightarrow> - 1 | Some v \<Rightarrow> v)"

definition minus1_to_none :: "int \<Rightarrow> int option" where
  "minus1_to_none v = (if v \<noteq> - 1 then Some v else None)"

definition minus1_to_none_opt :: "int option \<Rightarrow> int option" where
  "minus1_to_none_opt p = (case p of None \<Rightarrow> None | Some v \<Rightarrow> minus1_to_none v)"

text \<open>
  An identifier fits its 32-byte field when its UTF-8 encoding has at most 32 bytes and it
  does not end with a NUL character.
\<close>

definition fits_field :: "pystr \<Rightarrow> bool" where
  "fits_field x =
     ((case utf8_encode x of Inl e \<Rightarrow> False | Inr e \<Rightarrow> length e \<le> 32)
      \<and> (x = [] \<or> last x \<noteq> 0))"

definition write_index_record ::
  "ChunkStore \<Rightarrow> pystr \<Rightarrow> pystr \<Rightarrow> pystr \<Rightarrow> int \<Rightarrow> int \<Rightarrow> int \<Rightarrow> bool \<Rightarrow> int \<Rightarrow> int
     \<Rightarrow> int \<Rightarrow> int \<Rightarrow> int \<Rightarrow> py_error + ChunkStore" where
  "write_index_record s cid duid did store_offset len checksum is_active
       off_start off_end cidx pstart pend =
     bind_err (utf8_encode cid) (\<lambda>cid_enc.
     bind_err (utf8_encode duid) (\<lambda>duid_enc.
     bind_err (utf8_encode did) (\<lambda>did_enc.
       let chunk_id_bytes = ljust 32 0 (take 32 cid_enc);
           doc_uid_bytes = ljust 32 0 (take 32 duid_enc);
           doc_id_bytes = ljust 32 0 (take 32 did_enc)
       in bind_err (struct_pack
            \<lparr> f_chunk_id = chunk_id_bytes, f_doc_uid = doc_uid_bytes, f_doc_id = doc_id_bytes,
              f_store_offset = store_offset, f_length = len, f_checksum = checksum,
              f_is_active = (if is_active then 1 else 0), f_offset_start = off_start,
              f_offset_end = off_end, f_chunk_index = cidx, f_page_start = pstart,
              f_page_end = pend \<rparr>)
          (\<lambda>record. Inr (s\<lparr>chunks_idx := append_file (chunks_idx s) record\<rparr>)))))"

definition write_chunk :: "ChunkStore \<Rightarrow> Chunk \<Rightarrow> bytes \<Rightarrow> int \<Rightarrow> py_error + ChunkStore" where
  "write_chunk s chunk compressed_data checksum =
     (let store_offset = int (file_size (chunks_bin s));
          s1 = s\<lparr>chunks_bin := append_file (chunks_bin s) compressed_data\<rparr>;
          len = int (length compressed_data)
      in bind_err
           (write_index_record s1 (chunk_id chunk) (doc_uid chunk) (doc_id chunk) store_offset
              len checksum True (offset_start chunk) (offset_end chunk) (chunk_index chunk)
              (none_to_minus1 (page_start chunk)) (none_to_minus1 (page_end chunk)))
           (\<lambda>s2. Inr (s2
              \<lparr> index := (index s2)(chunk_id chunk \<mapsto>
                   \<lparr> rec_doc_uid = doc_uid chunk, rec_doc_id = doc_id chunk,
                     rec_store_offset = store_offset, rec_length = len,
                     rec_checksum = checksum, rec_is_active = True,
                     rec_offset_start = offset_start chunk, rec_offset_end = offset_end chunk,
                     rec_chunk_index = chunk_index chunk, rec_page_start = page_start chunk,
                     rec_page_end = page_end chunk \<rparr>),
                doc_uid_to_chunks := (doc_uid_to_chunks s2)(doc_uid chunk \<mapsto>
                   (case doc_uid_to_chunks s2 (doc_uid chunk) of None \<Rightarrow> [] | Some l \<Rightarrow> l)
                     @ [chunk_id chunk]) \<rparr>)))"

text \<open>
  \<open>f.seek(offset)\<close> raises on a negative offset, and \<open>f.read(n)\<close> reads to the end of
  the file when \<open>n\<close> is negative.
\<close>

definition seek_read :: "bytes \<Rightarrow> int \<Rightarrow> int \<Rightarrow> py_error + bytes" where
  "seek_read content off n =
     (if off < 0 then Inl OSError
      else if n < 0 then Inr (drop (nat off) content)
      else Inr (take (nat n) (drop (nat off) content)))"

definition read_chunk :: "libs \<Rightarrow> ChunkStore \<Rightarrow> pystr \<Rightarrow> py_error + Chunk option" where
  "read_chunk L s cid =
     (case index s cid of
        None \<Rightarrow> Inr None
      | Some record \<Rightarrow>
          if \<not> rec_is_active record then Inr None
          else case chunks_bin s of
            None \<Rightarrow> Inl FileNotFoundError
          | Some content \<Rightarrow>
              bind_err (seek_read content (rec_store_offset record) (rec_length record))
                (\<lambda>compressed_data.
              bind_err (decompress_data L compressed_data) (\<lambda>decompressed_data.
              bind_err (utf8_decode decompressed_data) (\<lambda>txt.
                if uint (xxh32_intdigest L decompressed_data) \<noteq> rec_checksum record
                then Inl ValueError
                else
                  let source_path =
                        (case doc_id_to_source_path s (rec_doc_id record) of
                           None \<Rightarrow> [] | Some p \<Rightarrow> p);
                      sref = \<lparr> sr_source_path = source_path,
                               sr_offset_start = rec_offset_start record,
                               sr_offset_end = rec_offset_end record,
                               sr_page_start = minus1_to_none_opt (rec_page_start record),
                               sr_page_end = minus1_to_none_opt (rec_page_end record) \<rparr>
                  in Inr (Some
                       \<lparr> chunk_id = cid, doc_uid = rec_doc_uid record,
                         doc_id = rec_doc_id record, chunk_text = txt,
                         offset_start = rec_offset_start record,
                         offset_end = rec_offset_end record,
                         chunk_index = rec_chunk_index record, source_ref = sref,
                         page_start = minus1_to_none_opt (rec_page_start record),
                         page_end = minus1_to_none_opt (rec_page_end record) \<rparr>)))))"

definition load_docs_meta :: "libs \<Rightarrow> ChunkStore \<Rightarrow> py_error + (pystr \<times> doc_info) list" where
  "load_docs_meta L s =
     (case docs_meta s of None \<Rightarrow> Inr [] | Some content \<Rightarrow> json_load_meta L content)"

fun source_paths ::
  "(pystr \<times> doc_info) list \<Rightarrow> (pystr \<rightharpoonup> pystr) \<Rightarrow> (pystr \<rightharpoonup> pystr)" where
  "source_paths [] m = m"
| "source_paths ((duid, info) # rest) m =
     (case (di_doc_id info, di_source_path info) of
        (Some did, Some path) \<Rightarrow> source_paths rest (m(did \<mapsto> path))
      | _ \<Rightarrow> source_paths rest m)"

text \<open>
  One turn of the loop of \<open>load_index\<close>: unpack a 141-byte record, decode its
  identifiers and store the dictionary built from it (\<open>record_of_fields\<close>) over any
  earlier record of the same \<open>chunk_id\<close>.
\<close>

definition record_of_fields :: "pystr \<Rightarrow> pystr \<Rightarrow> index_fields \<Rightarrow> index_record" where
  "record_of_fields duid did f =
     \<lparr> rec_doc_uid = duid, rec_doc_id = did,
       rec_store_offset = f_store_offset f, rec_length = f_length f,
       rec_checksum = f_checksum f, rec_is_active = (f_is_active f \<noteq> 0),
       rec_offset_start = f_offset_start f, rec_offset_end = f_offset_end f,
       rec_chunk_index = f_chunk_index f,
       rec_page_start = minus1_to_none (f_page_start f),
       rec_page_end = minus1_to_none (f_page_end f) \<rparr>"

definition load_record ::
  "bytes \<Rightarrow> (pystr \<rightharpoonup> index_record) \<times> (pystr \<rightharpoonup> pystr list)
     \<Rightarrow> py_error + (pystr \<rightharpoonup> index_record) \<times> (pystr \<rightharpoonup> pystr list)" where
  "load_record record_bytes maps =
     bind_err (struct_unpack record_bytes) (\<lambda>f.
     bind_err (utf8_decode (rstrip_nul (f_chunk_id f))) (\<lambda>cid.
     bind_err (utf8_decode (rstrip_nul (f_doc_uid f))) (\<lambda>duid.
     bind_err (utf8_decode (rstrip_nul (f_doc_id f))) (\<lambda>did.
       let idx = (fst maps)(cid \<mapsto> record_of_fields duid did f);
           l = (case snd maps duid of None \<Rightarrow> [] | Some l \<Rightarrow> l);
           d2c = (snd maps)(duid \<mapsto> (if cid \<in> set l then l else l @ [cid]))
       in Inr (idx, d2c)))))"

function load_records ::
  "bytes \<Rightarrow> (pystr \<rightharpoonup> index_record) \<times> (pystr \<rightharpoonup> pystr list)
     \<Rightarrow> py_error + (pystr \<rightharpoonup> index_record) \<times> (pystr \<rightharpoonup> pystr list)" where
  "load_records rest maps =
     (if length (take INDEX_RECORD_SIZE rest) < INDEX_RECORD_SIZE then Inr maps
      else case load_record (take INDEX_RECORD_SIZE rest) maps of
             Inl e \<Rightarrow> Inl e
           | Inr maps' \<Rightarrow> load_records (drop INDEX_RECORD_SIZE rest) maps')"
  by pat_completeness auto
termination
  by (relation "measure (\<lambda>(rest, maps). length rest)") (auto simp: INDEX_RECORD_SIZE_def)

declare load_records.simps [simp del]

definition load_index :: "libs \<Rightarrow> ChunkStore \<Rightarrow> py_error + ChunkStore" where
  "load_index L s =
     (case chunks_idx s of
        None \<Rightarrow> Inr s
      | Some content \<Rightarrow>
          bind_err (load_docs_meta L s) (\<lambda>meta.
          bind_err (load_records content (Map.empty, Map.empty)) (\<lambda>maps.
            Inr (s\<lparr> index := fst maps, doc_uid_to_chunks := snd maps,
                    doc_id_to_source_path := source_paths meta Map.empty \<rparr>))))"

definition tombstone_chunk :: "ChunkStore \<Rightarrow> pystr \<Rightarrow> py_error + ChunkStore" where
  "tombstone_chunk s cid =
     (case index s cid of
        None \<Rightarrow> Inr s
      | Some record \<Rightarrow>
          bind_err
            (write_index_record s cid (rec_doc_uid record) (rec_doc_id record)
               (rec_store_offset record) (rec_length record) (rec_checksum record) False
               (rec_offset_start record) (rec_offset_end record) (rec_chunk_index record)
               (none_to_minus1 (rec_page_start record)) (none_to_minus1 (rec_page_end record)))
            (\<lambda>s1. Inr (s1\<lparr>index := (index s1)(cid \<mapsto> record\<lparr>rec_is_active := False\<rparr>)\<rparr>)))"

fun tombstone_chunks :: "ChunkStore \<Rightarrow> pystr list \<Rightarrow> py_error + ChunkStore" where
  "tombstone_chunks s [] = Inr s"
| "tombstone_chunks s (cid # rest) =
     bind_err (tombstone_chunk s cid) (\<lambda>s1. tombstone_chunks s1 rest)"

definition tombstone_document :: "ChunkStore \<Rightarrow> pystr \<Rightarrow> py_error + ChunkStore" where
  "tombstone_document s duid =
     (case doc_uid_to_chunks s duid of
        None \<Rightarrow> Inr s
      | Some cids \<Rightarrow> tombstone_chunks s cids)"

text \<open>
  \<open>save_docs_meta\<close> opens \<open>docs.meta\<close> for writing, which truncates it, and
  \<open>json.dump\<close> writes the text into it piece by piece. The function below lists the
  states of the store in order: after the open, then after each piece.
\<close>

fun write_pieces :: "bytes \<Rightarrow> bytes list \<Rightarrow> bytes list" where
  "write_pieces cur [] = []"
| "write_pieces cur (p # ps) = (cur @ p) # write_pieces (cur @ p) ps"

definition save_docs_meta_steps :: "ChunkStore \<Rightarrow> bytes list \<Rightarrow> ChunkStore list" where
  "save_docs_meta_steps s dump_pieces =
     map (\<lambda>c. s\<lparr>docs_meta := Some c\<rparr>) ([] # write_pieces [] dump_pieces)"

definition save_docs_meta :: "ChunkStore \<Rightarrow> bytes list \<Rightarrow> ChunkStore" where
  "save_docs_meta s dump_pieces = last (save_docs_meta_steps s dump_pieces)"

subsection \<open>search/tokenizer.py\<close>

text \<open>
  \<open>str.lower\<close> and the class \<open>\w\<close> of the regular expressions follow the Unicode
  character database; they are the two fields of a parameter. \<open>re.findall(r"\w+", s)\<close>
  scans \<open>s\<close> from the left and returns the maximal runs of word characters.
\<close>

record unicode_db =
  str_lower :: "pystr \<Rightarrow> pystr"
  is_word_char :: "nat \<Rightarrow> bool"

record BM25Tokenizer =
  use_stopwords :: bool
  stopwords :: "pystr list"

definition default_stopwords :: "pystr list" where
  "default_stopwords = map str_of
     [''the'', ''a'', ''an'', ''and'', ''or'', ''but'', ''in'', ''on'', ''at'', ''to'', ''for'',
      ''of'', ''with'', ''by'', ''is'', ''are'', ''was'', ''were'', ''be'', ''been'', ''being'',
      ''have'', ''has'', ''had'', ''do'', ''does'', ''did'', ''will'', ''would'', ''should'',
      ''could'', ''may'', ''might'', ''must'', ''can'']"

definition new_tokenizer :: "bool \<Rightarrow> BM25Tokenizer" where
  "new_tokenizer use = \<lparr> use_stopwords = use, stopwords = default_stopwords \<rparr>"

fun findall_words :: "(nat \<Rightarrow> bool) \<Rightarrow> pystr \<Rightarrow> pystr \<Rightarrow> pystr list" where
  "findall_words w cur [] = (if cur = [] then [] else [cur])"
| "findall_words w cur (c # cs) =
     (if w c then findall_words w (cur @ [c]) cs
      else (if cur = [] then [] else [cur]) @ findall_words w [] cs)"

definition tokenize :: "unicode_db \<Rightarrow> BM25Tokenizer \<Rightarrow> pystr \<Rightarrow> pystr list" where
  "tokenize db tk txt =
     (let text_lower = str_lower db txt;
          tokens = findall_words (is_word_char db) [] text_lower
      in if use_stopwords tk then filter (\<lambda>t. t \<notin> set (stopwords tk)) tokens else tokens)"

definition tokenize_query :: "unicode_db \<Rightarrow> BM25Tokenizer \<Rightarrow> pystr \<Rightarrow> pystr list" where
  "tokenize_query db tk query = tokenize db tk query"

subsection \<open>search/bm25-index.py\<close>

text \<open>
  \<open>BM25Okapi\<close> is the class of the library rank-bm25. An object of it is modelled by its
  corpus size and its scoring function: \<open>get_scores\<close> returns one score for each of the
  \<open>corpus_size\<close> documents. The constructor is the parameter \<open>okapi\<close> of \<open>build\<close>.

  The scores are floating-point numbers. A float is NaN or a number; the numbers
  (infinities included) are linearly ordered and are the type parameter \<open>'r\<close>. Every
  comparison with NaN is false.
\<close>

datatype 'r pyfloat = NaN | Num 'r

definition float_lt :: "('r::linorder) pyfloat \<Rightarrow> 'r pyfloat \<Rightarrow> bool" where
  "float_lt a b = (case a of NaN \<Rightarrow> False | Num x \<Rightarrow> (case b of NaN \<Rightarrow> False | Num y \<Rightarrow> x < y))"

definition float_le :: "('r::linorder) pyfloat \<Rightarrow> 'r pyfloat \<Rightarrow> bool" where
  "float_le a b = (case a of NaN \<Rightarrow> False | Num x \<Rightarrow> (case b of NaN \<Rightarrow> False | Num y \<Rightarrow> x \<le> y))"

definition float_eq :: "'r pyfloat \<Rightarrow> 'r pyfloat \<Rightarrow> bool" where
  "float_eq a b = (case a of NaN \<Rightarrow> False | Num x \<Rightarrow> (case b of NaN \<Rightarrow> False | Num y \<Rightarrow> x = y))"

record 's BM25Okapi =
  corpus_size :: nat
  doc_score :: "nat \<Rightarrow> pystr list \<Rightarrow> 's"

definition get_scores :: "'s BM25Okapi \<Rightarrow> pystr list \<Rightarrow> 's list" where
  "get_scores bm query = map (\<lambda>i. doc_score bm i query) [0..<corpus_size bm]"

record 's BM25Index =
  tokenizer :: BM25Tokenizer
  bm25 :: "'s BM25Okapi option"
  chunk_ids :: "pystr list"
  chunk_id_to_index :: "pystr \<rightharpoonup> nat"

definition new_index :: "Config \<Rightarrow> 's BM25Index" where
  "new_index config =
     \<lparr> tokenizer = new_tokenizer (bm25_use_stopwords config), bm25 = None, chunk_ids = [],
       chunk_id_to_index = Map.empty \<rparr>"

fun enumerate_ids :: "nat \<Rightarrow> pystr list \<Rightarrow> (pystr \<rightharpoonup> nat) \<Rightarrow> (pystr \<rightharpoonup> nat)" where
  "enumerate_ids i [] m = m"
| "enumerate_ids i (c # cs) m = enumerate_ids (Suc i) cs (m(c \<mapsto> i))"

definition build ::
  "unicode_db \<Rightarrow> (pystr list list \<Rightarrow> nat \<Rightarrow> pystr list \<Rightarrow> 's) \<Rightarrow> 's BM25Index \<Rightarrow> Chunk list
     \<Rightarrow> py_error + 's BM25Index" where
  "build db okapi idx chunks =
     (if chunks = [] then Inl ValueError
      else
        let tokenized_corpus = map (\<lambda>c. tokenize db (tokenizer idx) (chunk_text c)) chunks;
            ids = map chunk_id chunks
        in Inr (idx\<lparr> chunk_ids := ids,
                     chunk_id_to_index := enumerate_ids 0 ids Map.empty,
                     bm25 := Some \<lparr> corpus_size = length tokenized_corpus,
                                    doc_score = okapi tokenized_corpus \<rparr> \<rparr>))"

text \<open>
  \<open>sorted(xs, key=f, reverse=True)\<close>: CPython reverses the list, sorts it in ascending
  order of the keys and reverses the result. The sort compares keys with \<open><\<close> only.
  It first looks for the longest run at the start of the list: when no key is less than
  the key before it, the whole list is one ascending run and is left as it is. When no
  key is NaN the keys are totally ordered and the result is the stable sort (elements
  with equal keys keep their order), here by insertion. For any other list the result
  depends on the comparisons the merge strategy happens to make; it is the parameter
  \<open>other\<close>. \<open>xs[:k]\<close> with a negative \<open>k\<close> drops the last \<open>-k\<close> elements.
\<close>

fun no_descent :: "('a \<Rightarrow> ('r::linorder) pyfloat) \<Rightarrow> 'a list \<Rightarrow> bool" where
  "no_descent f [] = True"
| "no_descent f [x] = True"
| "no_descent f (x # y # ys) = (\<not> float_lt (f y) (f x) \<and> no_descent f (y # ys))"

fun insort_lt :: "('a \<Rightarrow> ('r::linorder) pyfloat) \<Rightarrow> 'a \<Rightarrow> 'a list \<Rightarrow> 'a list" where
  "insort_lt f x [] = [x]"
| "insort_lt f x (y # ys) =
     (if float_lt (f y) (f x) then y # insort_lt f x ys else x # y # ys)"

definition stable_sort :: "('a \<Rightarrow> ('r::linorder) pyfloat) \<Rightarrow> 'a list \<Rightarrow> 'a list" where
  "stable_sort f xs = foldr (insort_lt f) xs []"

type_synonym ('a, 'r) sort_fun = "('a \<Rightarrow> 'r pyfloat) \<Rightarrow> 'a list \<Rightarrow> 'a list"

definition list_sort ::
  "('a, 'r) sort_fun \<Rightarrow> ('a \<Rightarrow> ('r::linorder) pyfloat) \<Rightarrow> 'a list \<Rightarrow> 'a list" where
  "list_sort other f xs =
     (if no_descent f xs then xs
      else if list_all (\<lambda>x. f x \<noteq> NaN) xs then stable_sort f xs
      else other f xs)"

definition sorted_reverse ::
  "('a, 'r) sort_fun \<Rightarrow> ('a \<Rightarrow> ('r::linorder) pyfloat) \<Rightarrow> 'a list \<Rightarrow> 'a list" where
  "sorted_reverse other f xs = rev (list_sort other f (rev xs))"

definition slice_to :: "int \<Rightarrow> 'a list \<Rightarrow> 'a list" where
  "slice_to k xs = (if 0 \<le> k then take (nat k) xs else take (length xs - nat (- k)) xs)"

fun collect_results ::
  "pystr list \<Rightarrow> 's list \<Rightarrow> nat list \<Rightarrow> py_error + (pystr \<times> 's) list" where
  "collect_results ids scores [] = Inr []"
| "collect_results ids scores (i # rest) =
     (if i < length ids
      then bind_err (collect_results ids scores rest) (\<lambda>r. Inr ((ids ! i, scores ! i) # r))
      else Inl IndexError)"

definition search ::
  "unicode_db \<Rightarrow> (nat, 'r) sort_fun \<Rightarrow> ('r::linorder) pyfloat BM25Index \<Rightarrow> pystr \<Rightarrow> int
     \<Rightarrow> py_error + (pystr \<times> 'r pyfloat) list" where
  "search db other idx query top_k =
     (case bm25 idx of
        None \<Rightarrow> Inl ValueError
      | Some bm \<Rightarrow>
          let query_tokens = tokenize_query db (tokenizer idx) query
          in if query_tokens = [] then Inr []
             else
               let scores = get_scores bm query_tokens;
                   top_indices =
                     slice_to top_k
                       (sorted_reverse other (\<lambda>i. scores ! i) [0..<length scores])
               in collect_results (chunk_ids idx) scores top_indices)"

text \<open>
  Position \<open>i\<close> is ranked before position \<open>j\<close> when its score is higher, or the scores
  are equal and \<open>i\<close> is the lower position.
\<close>

definition ranked_before :: "(nat \<Rightarrow> ('r::linorder) pyfloat) \<Rightarrow> nat \<Rightarrow> nat \<Rightarrow> bool" where
  "ranked_before f i j = (float_lt (f j) (f i) \<or> (float_eq (f i) (f j) \<and> i < j))"

subsection \<open>search/query.py\<close>

record 's RetrievalResult =
  rr_chunk_id :: pystr
  rr_score :: 's
  rr_matched_terms :: "pystr list"
  rr_snippet :: pystr
  rr_source_ref :: SourceRef

fun str_find :: "pystr \<Rightarrow> pystr \<Rightarrow> nat \<Rightarrow> nat option" where
  "str_find [] sub i = (if sub = [] then Some i else None)"
| "str_find (h # hs) sub i =
     (if take (length sub) (h # hs) = sub then Some i else str_find hs sub (Suc i))"

fun first_match :: "unicode_db \<Rightarrow> pystr \<Rightarrow> pystr list \<Rightarrow> nat \<Rightarrow> nat" where
  "first_match db text_lower [] first_pos = first_pos"
| "first_match db text_lower (term # rest) first_pos =
     (case str_find text_lower (str_lower db term) 0 of
        Some pos \<Rightarrow>
          first_match db text_lower rest (if pos < first_pos then pos else first_pos)
      | None \<Rightarrow> first_match db text_lower rest first_pos)"

definition generate_snippet :: "unicode_db \<Rightarrow> pystr \<Rightarrow> pystr list \<Rightarrow> nat \<Rightarrow> pystr" where
  "generate_snippet db txt matched_terms max_length =
     (if matched_terms = [] \<or> txt = [] then take max_length txt
      else
        let first_pos = first_match db (str_lower db txt) matched_terms (length txt)
        in if first_pos = length txt then take max_length txt
           else
             let start = first_pos - max_length div 2;
                 end_pos = min (length txt) (first_pos + max_length div 2);
                 snippet = slice start end_pos txt;
                 snippet1 = (if 0 < start then str_of ''...'' @ snippet else snippet)
             in if end_pos < length txt then snippet1 @ str_of ''...'' else snippet1)"

definition empty_source_ref :: SourceRef where
  "empty_source_ref =
     \<lparr> sr_source_path = [], sr_offset_start = 0, sr_offset_end = 0, sr_page_start = None,
       sr_page_end = None \<rparr>"

fun explain ::
  "unicode_db \<Rightarrow> libs \<Rightarrow> BM25Tokenizer \<Rightarrow> ChunkStore option \<Rightarrow> pystr list
     \<Rightarrow> (pystr \<times> 's) list \<Rightarrow> py_error + 's RetrievalResult list" where
  "explain db L tk store query_tokens [] = Inr []"
| "explain db L tk store query_tokens ((cid, score) # rest) =
     bind_err
       (case store of
          None \<Rightarrow> Inr None
        | Some cs \<Rightarrow> read_chunk L cs cid)
       (\<lambda>chunk.
          let result =
            (case chunk of
               None \<Rightarrow>
                 \<lparr> rr_chunk_id = cid, rr_score = score, rr_matched_terms = [],
                   rr_snippet = [], rr_source_ref = empty_source_ref \<rparr>
             | Some c \<Rightarrow>
                 let chunk_tokens = tokenize db tk (chunk_text c);
                     matched_terms =
                       sort (remdups (filter (\<lambda>t. t \<in> set chunk_tokens) query_tokens))
                 in \<lparr> rr_chunk_id = cid, rr_score = score, rr_matched_terms = matched_terms,
                      rr_snippet = generate_snippet db (chunk_text c) matched_terms 200,
                      rr_source_ref = source_ref c \<rparr>)
          in bind_err (explain db L tk store query_tokens rest) (\<lambda>r. Inr (result # r)))"

definition process_query ::
  "unicode_db \<Rightarrow> (nat, 'r) sort_fun \<Rightarrow> libs \<Rightarrow> ('r::linorder) pyfloat BM25Index
     \<Rightarrow> ChunkStore option \<Rightarrow> pystr \<Rightarrow> int \<Rightarrow> py_error + 'r pyfloat RetrievalResult list" where
  "process_query db other L idx store query top_k =
     bind_err (search db other idx query top_k) (\<lambda>results.
       let query_tokens = tokenize_query db (tokenizer idx) query
       in explain db L (tokenizer idx) store query_tokens results)"

subsection \<open>search/retrieval.py\<close>

text \<open>
  The pipeline holds an index and a chunk store; its query processor is built from both.
\<close>

definition retrieve_ids ::
  "unicode_db \<Rightarrow> (nat, 'r) sort_fun \<Rightarrow> ('r::linorder) pyfloat BM25Index \<Rightarrow> pystr \<Rightarrow> int
     \<Rightarrow> py_error + (pystr \<times> 'r pyfloat) list" where
  "retrieve_ids db other idx query top_k = search db other idx query top_k"

definition retrieve ::
  "unicode_db \<Rightarrow> (nat, 'r) sort_fun \<Rightarrow> libs \<Rightarrow> ('r::linorder) pyfloat BM25Index \<Rightarrow> ChunkStore
     \<Rightarrow> pystr \<Rightarrow> int \<Rightarrow> py_error + 'r pyfloat RetrievalResult list" where
  "retrieve db other L idx store query top_k =
     process_query db other L idx (Some store) query top_k"

fun fetch_chunks :: "libs \<Rightarrow> ChunkStore \<Rightarrow> pystr list \<Rightarrow> py_error + Chunk list" where
  "fetch_chunks L store [] = Inr []"
| "fetch_chunks L store (cid # rest) =
     bind_err (read_chunk L store cid) (\<lambda>chunk.
     bind_err (fetch_chunks L store rest) (\<lambda>r.
       Inr (case chunk of None \<Rightarrow> r | Some c \<Rightarrow> c # r)))"

subsection \<open>storage/manifest.py\<close>

record ArtifactManifest =
  schema_version :: pystr
  artifact_version :: pystr
  build_timestamp :: pystr
  total_docs :: int
  total_chunks :: int
  index_type :: pystr
  compression :: pystr
  checksums :: "(pystr \<times> pystr) list"

text \<open>
  The artifact directory maps a file name to the bytes of the regular file of that name;
  a name outside the domain does not exist. The dictionary \<open>checksums\<close> is the list of
  its items in iteration order.
\<close>

type_synonym directory = "pystr \<rightharpoonup> bytes"

text \<open>
  \<open>compute_file_checksum\<close>: the hash object is the bytes it has been fed;
  \<open>f.read(4096)\<close> takes the next block, and the empty block ends the loop.
\<close>

function feed_blocks :: "bytes \<Rightarrow> bytes \<Rightarrow> bytes" where
  "feed_blocks rest h =
     (let chunk = take 4096 rest
      in if chunk = [] then h else feed_blocks (drop 4096 rest) (h @ chunk))"
  by pat_completeness auto
termination
  by (relation "measure (\<lambda>(rest, h). length rest)") auto

declare feed_blocks.simps [simp del]

definition compute_file_checksum :: "sha256_fun \<Rightarrow> bytes \<Rightarrow> pystr" where
  "compute_file_checksum sha content = hexdigest (sha (feed_blocks content []))"

definition required_files :: "pystr list" where
  "required_files =
     [str_of ''chunks.bin'', str_of ''chunks.idx'', str_of ''bm25_index.pkl'',
      str_of ''docs.meta'']"

fun required_exist :: "directory \<Rightarrow> pystr list \<Rightarrow> bool" where
  "required_exist d [] = True"
| "required_exist d (filename # rest) =
     (if d filename = None then False else required_exist d rest)"

fun checksums_match :: "sha256_fun \<Rightarrow> directory \<Rightarrow> (pystr \<times> pystr) list \<Rightarrow> bool" where
  "checksums_match sha d [] = True"
| "checksums_match sha d ((filename, expected_checksum) # rest) =
     (case d filename of
        None \<Rightarrow> False
      | Some content \<Rightarrow>
          if compute_file_checksum sha content \<noteq> expected_checksum then False
          else checksums_match sha d rest)"

definition validate_manifest :: "sha256_fun \<Rightarrow> ArtifactManifest \<Rightarrow> directory \<Rightarrow> bool" where
  "validate_manifest sha manifest artifact_dir =
     (if \<not> required_exist artifact_dir required_files then False
      else checksums_match sha artifact_dir (checksums manifest))"

text \<open>
  Modelled from the spec: \<open>load_artifact\<close> of \<open>veritas_rag/artifact.py\<close>, a file that
  is not among the sources (the command line calls
  \<open>load_artifact(artifact_dir, strict=strict)\<close>). The spec: "Load: open store directory,
  load the fixed-width index with last-record-wins, load docs.meta, load the BM25 index,
  optionally verify the manifest", and "Strict load: when requested, verify that every
  file listed in checksums exists and re-hashes to the stored digest; any mismatch aborts
  load", the error being \<open>ManifestMismatch\<close>, "strict mode SHA-256 disagreement or
  missing file; fatal at load". The verification is \<open>validate_manifest\<close>. Reading
  \<open>manifest.json\<close> and loading the store and the indexes are the parameters
  \<open>read_manifest\<close> and \<open>load_rest\<close>.
\<close>

definition load_artifact ::
  "sha256_fun \<Rightarrow> (directory \<Rightarrow> py_error + ArtifactManifest) \<Rightarrow> (directory \<Rightarrow> py_error + 'a)
     \<Rightarrow> directory \<Rightarrow> bool \<Rightarrow> py_error + 'a" where
  "load_artifact sha read_manifest load_rest artifact_dir strict =
     bind_err (load_rest artifact_dir) (\<lambda>artifact.
       if strict
       then bind_err (read_manifest artifact_dir) (\<lambda>manifest.
              if validate_manifest sha manifest artifact_dir then Inr artifact
              else Inl ManifestMismatch)
       else Inr artifact)"

text \<open>
  \<open>save_manifest\<close> writes \<open>manifest.json\<close> the same way: the states of the directory
  after the open and after each piece written by \<open>json.dump\<close>.
\<close>

definition save_manifest_steps :: "directory \<Rightarrow> pystr \<Rightarrow> bytes list \<Rightarrow> directory list" where
  "save_manifest_steps d file_path dump_pieces =
     map (\<lambda>c. d(file_path \<mapsto> c)) ([] # write_pieces [] dump_pieces)"

definition save_manifest :: "directory \<Rightarrow> pystr \<Rightarrow> bytes list \<Rightarrow> directory" where
  "save_manifest d file_path dump_pieces = last (save_manifest_steps d file_path dump_pieces)"

subsection \<open>Example data\<close>

text \<open>
  A stand-in for SHA-256 (the first byte of the message) and a small artifact, used to
  evaluate the definitions on concrete inputs.
\<close>

definition ex_sha :: sha256_fun where
  "ex_sha bs = (case bs of [] \<Rightarrow> 0 | b # _ \<Rightarrow> ucast b)"

definition ex_dir :: directory where
  "ex_dir = map_of
     [(str_of ''chunks.bin'', [1, 2]), (str_of ''chunks.idx'', [3]),
      (str_of ''bm25_index.pkl'', [4]), (str_of ''docs.meta'', [5])]"

definition ex_manifest :: ArtifactManifest where
  "ex_manifest =
     \<lparr> schema_version = str_of ''1.0'', artifact_version = str_of ''1.0'',
       build_timestamp = str_of ''2024-01-01T00:00:00'', total_docs = 1, total_chunks = 1,
       index_type = str_of ''bm25'', compression = str_of ''zstd'',
       checksums =
         [(str_of ''chunks.bin'', hexdigest (ex_sha [1, 2])),
          (str_of ''docs.meta'', hexdigest (ex_sha [5]))] \<rparr>"

definition ascii_lower :: "nat \<Rightarrow> nat" where
  "ascii_lower c = (if 65 \<le> c \<and> c \<le> 90 then c + 32 else c)"

definition ascii_word :: "nat \<Rightarrow> bool" where
  "ascii_word c = ((48 \<le> c \<and> c \<le> 57) \<or> (65 \<le> c \<and> c \<le> 90) \<or> c = 95 \<or> (97 \<le> c \<and> c \<le> 122))"

text \<open>The character database restricted to ASCII.\<close>

definition ex_db :: unicode_db where
  "ex_db = \<lparr> str_lower = map ascii_lower, is_word_char = ascii_word \<rparr>"

text \<open>
  A stand-in for the BM25 formula: the number of query tokens that occur in the document.
\<close>

definition ex_okapi :: "pystr list list \<Rightarrow> nat \<Rightarrow> pystr list \<Rightarrow> int pyfloat" where
  "ex_okapi corpus i q = Num (int (length (filter (\<lambda>t. t \<in> set (corpus ! i)) q)))"

text \<open>A scoring whose second score is NaN, and a sort for the lists left to \<open>other\<close>.\<close>

definition ex_nan_okapi :: "pystr list list \<Rightarrow> nat \<Rightarrow> pystr list \<Rightarrow> int pyfloat" where
  "ex_nan_okapi corpus i q = [Num 1, NaN, Num 2] ! i"

definition ex_other :: "(nat, int) sort_fun" where
  "ex_other f xs = xs"

definition ex_config :: Config where
  "ex_config = \<lparr> chunk_size = 20, chunk_overlap = 5, bm25_use_stopwords = False, zstd_level = 3 \<rparr>"

definition ex_chunk :: "string \<Rightarrow> string \<Rightarrow> Chunk" where
  "ex_chunk cid txt =
     \<lparr> chunk_id = str_of cid, doc_uid = str_of ''abc123def456'', doc_id = str_of ''d1'',
       chunk_text = str_of txt, offset_start = 0, offset_end = int (length txt),
       chunk_index = 0,
       source_ref = \<lparr> sr_source_path = str_of ''test.txt'', sr_offset_start = 0,
                      sr_offset_end = int (length txt), sr_page_start = None,
                      sr_page_end = None \<rparr>,
       page_start = None, page_end = None \<rparr>"

definition ex_chunks :: "Chunk list" where
  "ex_chunks =
     [ex_chunk ''c0'' ''Machine learning'', ex_chunk ''c1'' ''data'', ex_chunk ''c2'' ''machine'']"

definition ex_index :: "int pyfloat BM25Index" where
  "ex_index = projr (build ex_db ex_okapi (new_index ex_config) ex_chunks)"

definition ex_nan_index :: "int pyfloat BM25Index" where
  "ex_nan_index = projr (build ex_db ex_nan_okapi (new_index ex_config) ex_chunks)"

text \<open>
  Stand-ins for the libraries of the store: a compressor that puts one byte in front of
  the data, a checksum that adds the bytes up, and a \<open>docs.meta\<close> that parses to one
  document.
\<close>

definition ex_libs :: libs where
  "ex_libs =
     \<lparr> zstd_compress = (\<lambda>level data. 40 # data),
       zstd_decompress = (\<lambda>bs. case bs of [] \<Rightarrow> Inl ZstdError
                                 | b # r \<Rightarrow> if b = 40 then Inr r else Inl ZstdError),
       xxh32_intdigest = (\<lambda>bs. of_nat (sum_list (map unat bs))),
       json_load_meta = (\<lambda>bs. Inr [(str_of ''abc123def456'',
          \<lparr> di_doc_id = Some (str_of ''d1''), di_source_path = Some (str_of ''test.txt'') \<rparr>)]) \<rparr>"

text \<open>Writing a chunk the way the builder does: compress the UTF-8 bytes, hash them.\<close>

definition store_chunk :: "libs \<Rightarrow> ChunkStore \<Rightarrow> Chunk \<Rightarrow> py_error + ChunkStore" where
  "store_chunk L s c =
     bind_err (utf8_encode (chunk_text c)) (\<lambda>data.
       write_chunk s c (compress_data L data 3) (uint (xxh32_intdigest L data)))"

definition ex_store :: ChunkStore where
  "ex_store = \<lparr> chunks_bin = None, chunks_idx = None, docs_meta = None, index = Map.empty,
      doc_uid_to_chunks = Map.empty, doc_id_to_source_path = Map.empty \<rparr>"

section \<open>Properties\<close>

subsection \<open>Errors\<close>

lemma bind_err_Inr [simp]: "bind_err (Inr x) f = f x"
  by (simp add: bind_err_def)

lemma bind_err_Inl [simp]: "bind_err (Inl e) f = Inl e"
  by (simp add: bind_err_def)

lemma bind_err_eq_Inr: "bind_err m f = Inr y \<longleftrightarrow> (\<exists>x. m = Inr x \<and> f x = Inr y)"
  by (cases m) simp_all

subsection \<open>UTF-8 round trips\<close>

lemma byte_of_nat: "n < 256 \<Longrightarrow> unat (of_nat n :: byte) = n"
  by (simp add: unat_of_nat)

lemma unat_byte_lt: "unat (b :: byte) < 256"
  using unsigned_less [of b, where 'a = nat] by simp

lemma byte_eqI: "unat (b :: byte) = n \<Longrightarrow> of_nat n = b"
  by (metis of_nat_unat ucast_id)

lemma decode1: "unat b < 128 \<Longrightarrow> utf8_decode (b # r) = cons_cp (unat b) (utf8_decode r)"
  by simp

lemma decode2:
  "194 \<le> unat b \<Longrightarrow> unat b < 224 \<Longrightarrow> is_cont b1 \<Longrightarrow>
   utf8_decode (b # b1 # r) = cons_cp ((unat b - 192) * 64 + (unat b1 - 128)) (utf8_decode r)"
  by simp

lemma decode3:
  "224 \<le> unat b \<Longrightarrow> unat b < 240 \<Longrightarrow> is_cont b1 \<Longrightarrow> is_cont b2 \<Longrightarrow>
   c = (unat b - 224) * 4096 + (unat b1 - 128) * 64 + (unat b2 - 128) \<Longrightarrow>
   2048 \<le> c \<Longrightarrow> \<not> (55296 \<le> c \<and> c < 57344) \<Longrightarrow>
   utf8_decode (b # b1 # b2 # r) = cons_cp c (utf8_decode r)"
  by simp

lemma decode4:
  "240 \<le> unat b \<Longrightarrow> unat b < 245 \<Longrightarrow> is_cont b1 \<Longrightarrow> is_cont b2 \<Longrightarrow> is_cont b3 \<Longrightarrow>
   c = (unat b - 240) * 262144 + (unat b1 - 128) * 4096 + (unat b2 - 128) * 64 + (unat b3 - 128) \<Longrightarrow>
   65536 \<le> c \<Longrightarrow> c < 1114112 \<Longrightarrow>
   utf8_decode (b # b1 # b2 # b3 # r) = cons_cp c (utf8_decode r)"
  by simp

lemma cont_byte: "x < 64 \<Longrightarrow> b = (of_nat (128 + x) :: byte) \<Longrightarrow> is_cont b \<and> unat b - 128 = x"
  by (simp add: is_cont_def byte_of_nat del: of_nat_add)

lemma length_le_bytes [simp]: "length (le_bytes k v) = k"
  by (induction k arbitrary: v) simp_all

lemma le_value_le_bytes: "le_value (le_bytes k v) = v mod 256 ^ k"
proof (induction k arbitrary: v)
  case 0
  show ?case by simp
next
  case (Suc k)
  have "le_value (le_bytes (Suc k) v) = v mod 256 + 256 * ((v div 256) mod 256 ^ k)"
    by (simp add: Suc.IH byte_of_nat)
  also have "\<dots> = v mod (256 * 256 ^ k)"
    by (simp add: mod_mult2_eq)
  finally show ?case by simp
qed

lemma cons_cp_Inr: "cons_cp c m = Inr s \<longleftrightarrow> (\<exists>r. m = Inr r \<and> s = c # r)"
  by (cases m) (auto simp: cons_cp_def)

lemma split3: "(c::nat) div 4096 * 4096 + c div 64 mod 64 * 64 + c mod 64 = c"
proof -
  have a: "c div 4096 = c div 64 div 64" by (simp add: div_mult2_eq)
  have b: "c div 64 div 64 * 64 + c div 64 mod 64 = c div 64" by (rule div_mult_mod_eq)
  have d: "c div 64 * 64 + c mod 64 = c" by (rule div_mult_mod_eq)
  show ?thesis unfolding a using b d by linarith
qed

lemma split4:
  "(c::nat) div 262144 * 262144 + c div 4096 mod 64 * 4096 + c div 64 mod 64 * 64 + c mod 64 = c"
proof -
  have a: "c div 262144 = c div 4096 div 64" by (simp add: div_mult2_eq)
  have b: "c div 4096 div 64 * 64 + c div 4096 mod 64 = c div 4096" by (rule div_mult_mod_eq)
  show ?thesis unfolding a using b split3 [of c] by linarith
qed

lemma join2: "x < 64 \<Longrightarrow> (a * 64 + x) div 64 = (a::nat) \<and> (a * 64 + x) mod 64 = x"
  by simp

lemma join3:
  assumes "x < 64" "y < 64"
  shows "(a * 4096 + x * 64 + y) div 4096 = (a::nat) \<and> (a * 4096 + x * 64 + y) div 64 mod 64 = x
     \<and> (a * 4096 + x * 64 + y) mod 64 = y"
proof -
  let ?c = "a * 4096 + x * 64 + y"
  let ?q = "a * 64 + x"
  have e: "?c = ?q * 64 + y" by simp
  have q: "(?q * 64 + y) div 64 = ?q \<and> (?q * 64 + y) mod 64 = y"
    by (rule join2 [OF assms(2)])
  have d1: "?c div 64 = ?q" using q by (simp only: e)
  have d3: "?c mod 64 = y" using q by (simp only: e)
  have "?c div 4096 = ?c div 64 div 64"
    by (simp add: div_mult2_eq)
  also have "\<dots> = a" using join2 [OF assms(1), of a] by (simp only: d1)
  finally have d2: "?c div 4096 = a" .
  have d4: "?c div 64 mod 64 = x" using join2 [OF assms(1), of a] by (simp only: d1)
  show ?thesis using d2 d3 d4 by (intro conjI)
qed

lemma join4:
  assumes "x < 64" "y < 64" "z < 64"
  shows "(a * 262144 + x * 4096 + y * 64 + z) div 262144 = (a::nat)
     \<and> (a * 262144 + x * 4096 + y * 64 + z) div 4096 mod 64 = x
     \<and> (a * 262144 + x * 4096 + y * 64 + z) div 64 mod 64 = y
     \<and> (a * 262144 + x * 4096 + y * 64 + z) mod 64 = z"
proof -
  let ?c = "a * 262144 + x * 4096 + y * 64 + z"
  let ?q = "a * 64 + x"
  have e: "?c = ?q * 4096 + y * 64 + z" by simp
  have j: "(?q * 4096 + y * 64 + z) div 4096 = ?q
      \<and> (?q * 4096 + y * 64 + z) div 64 mod 64 = y \<and> (?q * 4096 + y * 64 + z) mod 64 = z"
    by (rule join3 [OF assms(2,3)])
  have d1: "?c div 4096 = ?q" using j by (simp only: e)
  have d2: "?c div 64 mod 64 = y" using j by (simp only: e)
  have d3: "?c mod 64 = z" using j by (simp only: e)
  have "?c div 262144 = ?c div 4096 div 64" by (simp add: div_mult2_eq)
  also have "\<dots> = a" using join2 [OF assms(1), of a] by (simp only: d1)
  finally have d0: "?c div 262144 = a" .
  have d4: "?c div 4096 mod 64 = x" using join2 [OF assms(1), of a] by (simp only: d1)
  show ?thesis using d0 d4 d2 d3 by (intro conjI)
qed

lemma decode_encode_cp:
  assumes "encode_cp c = Some bs"
  shows "utf8_decode (bs @ rest) = cons_cp c (utf8_decode rest)"
proof -
  consider "c < 128" | "128 \<le> c" "c < 2048" | "2048 \<le> c" "c < 65536" "\<not> (55296 \<le> c \<and> c < 57344)"
    | "65536 \<le> c" "c < 1114112"
    | "55296 \<le> c" "c < 57344" | "1114112 \<le> c"
    by linarith
  then show ?thesis
  proof cases
    case 1
    define b0 :: byte where "b0 = of_nat c"
    have u: "unat b0 = c" using 1 by (simp add: b0_def byte_of_nat)
    have "bs = [b0]" using assms 1 by (simp add: encode_cp_def b0_def)
    then show ?thesis using decode1 [of b0 rest] 1 u by simp
  next
    case 2
    define b0 :: byte where "b0 = of_nat (192 + c div 64)"
    define b1 :: byte where "b1 = of_nat (128 + c mod 64)"
    have b: "bs = [b0, b1]" using assms 2 by (simp add: encode_cp_def b0_def b1_def del: of_nat_add)
    have u0: "unat b0 = 192 + c div 64"
      unfolding b0_def using 2 by (intro byte_of_nat) simp
    have c1: "is_cont b1 \<and> unat b1 - 128 = c mod 64"
      by (rule cont_byte [OF _ b1_def]) simp
    have "utf8_decode (b0 # b1 # rest)
        = cons_cp ((unat b0 - 192) * 64 + (unat b1 - 128)) (utf8_decode rest)"
      using 2 c1 by (intro decode2) (simp_all add: u0)
    also have "(unat b0 - 192) * 64 + (unat b1 - 128) = c"
      using c1 by (simp add: u0)
    finally show ?thesis by (simp add: b)
  next
    case 3
    define b0 :: byte where "b0 = of_nat (224 + c div 4096)"
    define b1 :: byte where "b1 = of_nat (128 + c div 64 mod 64)"
    define b2 :: byte where "b2 = of_nat (128 + c mod 64)"
    have b: "bs = [b0, b1, b2]"
      using assms 3 by (auto simp add: encode_cp_def b0_def b1_def b2_def simp del: of_nat_add)
    have u0: "unat b0 = 224 + c div 4096"
      unfolding b0_def using 3 by (intro byte_of_nat) simp
    have c1: "is_cont b1 \<and> unat b1 - 128 = c div 64 mod 64"
      by (rule cont_byte [OF _ b1_def]) simp
    have c2: "is_cont b2 \<and> unat b2 - 128 = c mod 64"
      by (rule cont_byte [OF _ b2_def]) simp
    have e: "(unat b0 - 224) * 4096 + (unat b1 - 128) * 64 + (unat b2 - 128) = c"
      using c1 c2 split3 [of c] by (simp add: u0)
    have "utf8_decode (b0 # b1 # b2 # rest) = cons_cp c (utf8_decode rest)"
      using 3 c1 c2 e by (intro decode3) (simp_all add: u0)
    then show ?thesis by (simp add: b)
  next
    case 4
    define b0 :: byte where "b0 = of_nat (240 + c div 262144)"
    define b1 :: byte where "b1 = of_nat (128 + c div 4096 mod 64)"
    define b2 :: byte where "b2 = of_nat (128 + c div 64 mod 64)"
    define b3 :: byte where "b3 = of_nat (128 + c mod 64)"
    have b: "bs = [b0, b1, b2, b3]"
      using assms 4 by (auto simp add: encode_cp_def b0_def b1_def b2_def b3_def simp del: of_nat_add)
    have u0: "unat b0 = 240 + c div 262144"
      unfolding b0_def using 4 by (intro byte_of_nat) simp
    have c1: "is_cont b1 \<and> unat b1 - 128 = c div 4096 mod 64"
      by (rule cont_byte [OF _ b1_def]) simp
    have c2: "is_cont b2 \<and> unat b2 - 128 = c div 64 mod 64"
      by (rule cont_byte [OF _ b2_def]) simp
    have c3: "is_cont b3 \<and> unat b3 - 128 = c mod 64"
      by (rule cont_byte [OF _ b3_def]) simp
    have e: "(unat b0 - 240) * 262144 + (unat b1 - 128) * 4096 + (unat b2 - 128) * 64
        + (unat b3 - 128) = c"
      using c1 c2 c3 split4 [of c] by (simp add: u0)
    have "utf8_decode (b0 # b1 # b2 # b3 # rest) = cons_cp c (utf8_decode rest)"
      using 4 c1 c2 c3 e by (intro decode4) (simp_all add: u0)
    then show ?thesis by (simp add: b)
  next
    case 5
    then show ?thesis using assms by (simp add: encode_cp_def)
  next
    case 6
    then show ?thesis using assms by (simp add: encode_cp_def)
  qed
qed

lemma decode_encode: "utf8_encode s = Inr bs \<Longrightarrow> utf8_decode bs = Inr s"
proof (induction s arbitrary: bs)
  case Nil
  then show ?case by simp
next
  case (Cons c s)
  from Cons.prems obtain b r where b: "encode_cp c = Some b" and r: "utf8_encode s = Inr r"
    and bs: "bs = b @ r"
    by (auto simp: bind_err_eq_Inr split: option.splits)
  show ?case using Cons.IH [OF r] by (simp add: bs decode_encode_cp [OF b] cons_cp_def)
qed


lemma cont_split: "is_cont b \<Longrightarrow> \<exists>x < 64. unat b = 128 + x"
  unfolding is_cont_def by (rule exI [of _ "unat b - 128"]) auto

lemma encode_decode: "utf8_decode bs = Inr s \<Longrightarrow> utf8_encode s = Inr bs"
proof (induction bs arbitrary: s rule: utf8_decode.induct)
  case 1
  then show ?case by simp
next
  case (2 b bs)
  let ?n = "unat b"
  consider "?n < 128" | "194 \<le> ?n" "?n < 224" | "224 \<le> ?n" "?n < 240" | "240 \<le> ?n" "?n < 245"
    | "128 \<le> ?n" "?n < 194" | "245 \<le> ?n"
    by linarith
  then show ?case
  proof cases
    case 1
    with "2.prems" obtain r where r: "utf8_decode bs = Inr r" and s: "s = ?n # r"
      by (auto simp: cons_cp_Inr)
    have "utf8_encode r = Inr bs" using "2.IH"(1) [OF 1 r] .
    then show ?thesis using 1 by (simp add: s encode_cp_def)
  next
    case 2
    with "2.prems" obtain b1 t where bs: "bs = b1 # t" and c1: "is_cont b1"
      and d: "cons_cp ((?n - 192) * 64 + (unat b1 - 128)) (utf8_decode t) = Inr s"
      by (auto split: list.splits if_splits)
    from d obtain r where r: "utf8_decode t = Inr r"
      and s: "s = ((?n - 192) * 64 + (unat b1 - 128)) # r"
      by (auto simp: cons_cp_Inr)
    have n1: "\<not> ?n < 128" using 2 by simp
    have ih: "utf8_encode r = Inr t" using "2.IH"(2) [OF n1 _ bs c1 r] 2 by simp
    obtain x where x: "x < 64" "unat b1 = 128 + x" using cont_split [OF c1] by blast
    define a where "a = ?n - 192"
    have a: "?n = 192 + a" "2 \<le> a" "a < 32" using 2 by (simp_all add: a_def)
    define c where "c = a * 64 + x"
    have cs: "(?n - 192) * 64 + (unat b1 - 128) = c" by (simp add: c_def a_def x)
    have j: "c div 64 = a \<and> c mod 64 = x" unfolding c_def by (rule join2 [OF x(1)])
    have lo: "128 \<le> c" "c < 2048" using a x by (simp_all add: c_def)
    have e0: "(of_nat (192 + c div 64) :: byte) = b" using j a by (intro byte_eqI) simp
    have e1: "(of_nat (128 + c mod 64) :: byte) = b1" using j x by (intro byte_eqI) simp
    have "encode_cp c = Some [b, b1]"
      using lo e0 e1 by (simp add: encode_cp_def del: of_nat_add)
    moreover have "s = c # r" using s cs by (simp only:)
    ultimately show ?thesis by (simp add: bs ih)
  next
    case 3
    let ?f = "(?n - 224) * 4096 + (unat (hd bs) - 128) * 64 + (unat (hd (tl bs)) - 128)"
    from 3 "2.prems" obtain b1 b2 t where bs: "bs = b1 # b2 # t"
      by (auto split: list.splits if_splits)
    from 3 "2.prems" have c1: "is_cont b1" and c2: "is_cont b2"
      and lo: "2048 \<le> ?f" and ns: "\<not> (55296 \<le> ?f \<and> ?f < 57344)"
      and d: "cons_cp ?f (utf8_decode t) = Inr s"
      unfolding bs by (auto split: if_splits)
    from d obtain r where r: "utf8_decode t = Inr r" and s: "s = ?f # r"
      by (auto simp: cons_cp_Inr)
    have n1: "\<not> ?n < 128" and n2: "\<not> (194 \<le> ?n \<and> ?n < 224)" using 3 by simp_all
    have ih: "utf8_encode r = Inr t"
      using "2.IH"(3) [OF n1 n2 _ bs refl _ r] 3 c1 c2 lo ns by (simp add: bs)
    obtain x where x: "x < 64" "unat b1 = 128 + x" using cont_split [OF c1] by blast
    obtain y where y: "y < 64" "unat b2 = 128 + y" using cont_split [OF c2] by blast
    define a where "a = ?n - 224"
    have a: "?n = 224 + a" "a < 16" using 3 by (simp_all add: a_def)
    define c where "c = a * 4096 + x * 64 + y"
    have cs: "?f = c" by (simp add: c_def a_def x y bs)
    have j: "c div 4096 = a \<and> c div 64 mod 64 = x \<and> c mod 64 = y"
      unfolding c_def by (rule join3 [OF x(1) y(1)])
    have hi: "c < 65536" using a x y by (simp add: c_def)
    have e0: "(of_nat (224 + c div 4096) :: byte) = b" using j a by (intro byte_eqI) simp
    have e1: "(of_nat (128 + c div 64 mod 64) :: byte) = b1" using j x by (intro byte_eqI) simp
    have e2: "(of_nat (128 + c mod 64) :: byte) = b2" using j y by (intro byte_eqI) simp
    have "encode_cp c = Some [b, b1, b2]"
      using lo ns hi e0 e1 e2 unfolding cs by (auto simp add: encode_cp_def simp del: of_nat_add)
    moreover have "s = c # r" using s cs by (simp only:)
    ultimately show ?thesis by (simp add: bs ih)
  next
    case 4
    let ?f = "(?n - 240) * 262144 + (unat (hd bs) - 128) * 4096
        + (unat (hd (tl bs)) - 128) * 64 + (unat (hd (tl (tl bs))) - 128)"
    from 4 "2.prems" obtain b1 b2 b3 t where bs: "bs = b1 # b2 # b3 # t"
      by (auto split: list.splits if_splits)
    from 4 "2.prems" have c1: "is_cont b1" and c2: "is_cont b2" and c3: "is_cont b3"
      and lo: "65536 \<le> ?f" and hi: "?f < 1114112"
      and d: "cons_cp ?f (utf8_decode t) = Inr s"
      unfolding bs by (auto split: if_splits)
    from d obtain r where r: "utf8_decode t = Inr r" and s: "s = ?f # r"
      by (auto simp: cons_cp_Inr)
    have n1: "\<not> ?n < 128" and n2: "\<not> (194 \<le> ?n \<and> ?n < 224)"
      and n3: "\<not> (224 \<le> ?n \<and> ?n < 240)"
      using 4 by simp_all
    have ih: "utf8_encode r = Inr t"
      using "2.IH"(4) [OF n1 n2 n3 _ bs refl refl _ r] 4 c1 c2 c3 lo hi by (simp add: bs)
    obtain x where x: "x < 64" "unat b1 = 128 + x" using cont_split [OF c1] by blast
    obtain y where y: "y < 64" "unat b2 = 128 + y" using cont_split [OF c2] by blast
    obtain z where z: "z < 64" "unat b3 = 128 + z" using cont_split [OF c3] by blast
    define a where "a = ?n - 240"
    have a: "?n = 240 + a" "a < 5" using 4 by (simp_all add: a_def)
    define c where "c = a * 262144 + x * 4096 + y * 64 + z"
    have cs: "?f = c" by (simp add: c_def a_def x y z bs)
    have j: "c div 262144 = a \<and> c div 4096 mod 64 = x \<and> c div 64 mod 64 = y \<and> c mod 64 = z"
      unfolding c_def by (rule join4 [OF x(1) y(1) z(1)])
    have e0: "(of_nat (240 + c div 262144) :: byte) = b" using j a by (intro byte_eqI) simp
    have e1: "(of_nat (128 + c div 4096 mod 64) :: byte) = b1" using j x by (intro byte_eqI) simp
    have e2: "(of_nat (128 + c div 64 mod 64) :: byte) = b2" using j y by (intro byte_eqI) simp
    have e3: "(of_nat (128 + c mod 64) :: byte) = b3" using j z by (intro byte_eqI) simp
    have "encode_cp c = Some [b, b1, b2, b3]"
      using lo hi e0 e1 e2 e3 unfolding cs
      by (auto simp add: encode_cp_def simp del: of_nat_add)
    moreover have "s = c # r" using s cs by (simp only:)
    ultimately show ?thesis by (simp add: bs ih)
  next
    case 5
    with "2.prems" show ?thesis by simp
  next
    case 6
    with "2.prems" show ?thesis by simp
  qed
qed

subsection \<open>The index record\<close>

lemma pow256: "(256::nat) ^ k = 2 ^ (8 * k)"
  by (simp add: power_mult)

lemma pack_unsigned_Inr:
  assumes "pack_unsigned k v = Inr b"
  shows "length b = k \<and> unpack_unsigned b = v"
proof -
  from assms have v: "0 \<le> v" "v < 2 ^ (8 * k)" and b: "b = le_bytes k (nat v)"
    by (auto simp: pack_unsigned_def split: if_splits)
  have "nat v < 2 ^ (8 * k)" using v by (simp add: nat_less_iff)
  then have "nat v mod 256 ^ k = nat v" by (simp add: pow256)
  then show ?thesis using v by (simp add: b unpack_unsigned_def le_value_le_bytes)
qed

lemma pack_signed4_Inr:
  assumes "pack_signed 4 v = Inr b"
  shows "length b = 4 \<and> unpack_signed b = v"
proof -
  from assms have v: "- 2147483648 \<le> v" "v < 2147483648"
    and b: "b = le_bytes 4 (nat (v mod 4294967296))"
    by (auto simp: pack_signed_def split: if_splits)
  have m: "0 \<le> v mod 4294967296" "v mod 4294967296 < 4294967296" by simp_all
  have "nat (v mod 4294967296) mod 256 ^ 4 = nat (v mod 4294967296)"
    using m by (simp add: nat_less_iff)
  then have lv: "int (le_value b) = v mod 4294967296"
    using m by (simp add: b le_value_le_bytes)
  have len: "length b = 4" by (simp add: b)
  show ?thesis
  proof (cases "0 \<le> v")
    case True
    then have "v mod 4294967296 = v" using v by simp
    then show ?thesis using v True by (simp add: unpack_signed_def lv len)
  next
    case False
    then have "(v + 4294967296) mod 4294967296 = v + 4294967296"
      using v by (intro mod_pos_pos_trivial) simp_all
    then have "v mod 4294967296 = v + 4294967296" by simp
    then show ?thesis using v False by (simp add: unpack_signed_def lv len)
  qed
qed


lemma length_pack_s [simp]: "length (pack_s n bs) = n"
  by (simp add: pack_s_def ljust_def)

lemma pack_s_idem: "length bs = n \<Longrightarrow> pack_s n bs = bs"
  by (simp add: pack_s_def ljust_def)

lemma slice_0: "length a = j \<Longrightarrow> slice 0 j (a @ r) = a"
  by (simp add: slice_def)

lemma slice_skip: "length a = n \<Longrightarrow> n \<le> i \<Longrightarrow> slice i j (a @ r) = slice (i - n) (j - n) r"
  by (simp add: slice_def)

lemma struct_pack_Inr:
  assumes "struct_pack r = Inr bs"
  shows "length bs = INDEX_RECORD_SIZE \<and>
         struct_unpack bs = Inr (r\<lparr> f_chunk_id := pack_s 32 (f_chunk_id r),
           f_doc_uid := pack_s 32 (f_doc_uid r), f_doc_id := pack_s 32 (f_doc_id r) \<rparr>)"
proof -
  from assms obtain b4 b5 b6 b7 b8 b9 b10 b11 b12 where
    p4: "pack_unsigned 8 (f_store_offset r) = Inr b4" and
    p5: "pack_unsigned 4 (f_length r) = Inr b5" and
    p6: "pack_unsigned 4 (f_checksum r) = Inr b6" and
    p7: "pack_unsigned 1 (f_is_active r) = Inr b7" and
    p8: "pack_unsigned 8 (f_offset_start r) = Inr b8" and
    p9: "pack_unsigned 8 (f_offset_end r) = Inr b9" and
    p10: "pack_unsigned 4 (f_chunk_index r) = Inr b10" and
    p11: "pack_signed 4 (f_page_start r) = Inr b11" and
    p12: "pack_signed 4 (f_page_end r) = Inr b12" and
    bs: "bs = pack_s 32 (f_chunk_id r) @ pack_s 32 (f_doc_uid r) @ pack_s 32 (f_doc_id r)
            @ b4 @ b5 @ b6 @ b7 @ b8 @ b9 @ b10 @ b11 @ b12"
    unfolding struct_pack_def bind_err_eq_Inr by blast
  note u4 = pack_unsigned_Inr [OF p4] and u5 = pack_unsigned_Inr [OF p5]
    and u6 = pack_unsigned_Inr [OF p6] and u7 = pack_unsigned_Inr [OF p7]
    and u8 = pack_unsigned_Inr [OF p8] and u9 = pack_unsigned_Inr [OF p9]
    and u10 = pack_unsigned_Inr [OF p10] and u11 = pack_signed4_Inr [OF p11]
    and u12 = pack_signed4_Inr [OF p12]
  have len: "length bs = INDEX_RECORD_SIZE"
    using u4 u5 u6 u7 u8 u9 u10 u11 u12 by (simp add: bs INDEX_RECORD_SIZE_def)
  have s1: "slice 0 32 bs = pack_s 32 (f_chunk_id r)"
    unfolding bs by (rule slice_0) simp
  have s2: "slice 32 64 bs = pack_s 32 (f_doc_uid r)"
    unfolding bs by (simp add: slice_skip slice_0)
  have s3: "slice 64 96 bs = pack_s 32 (f_doc_id r)"
    unfolding bs by (simp add: slice_skip slice_0)
  have s4: "slice 96 104 bs = b4"
    unfolding bs using u4 by (simp add: slice_skip slice_0)
  have s5: "slice 104 108 bs = b5"
    unfolding bs using u4 u5 by (simp add: slice_skip slice_0)
  have s6: "slice 108 112 bs = b6"
    unfolding bs using u4 u5 u6 by (simp add: slice_skip slice_0)
  have s7: "slice 112 113 bs = b7"
    unfolding bs using u4 u5 u6 u7 by (simp add: slice_skip slice_0)
  have s8: "slice 113 121 bs = b8"
    unfolding bs using u4 u5 u6 u7 u8 by (simp add: slice_skip slice_0)
  have s9: "slice 121 129 bs = b9"
    unfolding bs using u4 u5 u6 u7 u8 u9 by (simp add: slice_skip slice_0)
  have s10: "slice 129 133 bs = b10"
    unfolding bs using u4 u5 u6 u7 u8 u9 u10 by (simp add: slice_skip slice_0)
  have s11: "slice 133 137 bs = b11"
    unfolding bs using u4 u5 u6 u7 u8 u9 u10 u11 by (simp add: slice_skip slice_0)
  have s12: "slice 137 141 bs = b12"
    unfolding bs using u4 u5 u6 u7 u8 u9 u10 u11 u12 by (simp add: slice_skip slice_0 slice_def)
  have "struct_unpack bs = Inr (r\<lparr> f_chunk_id := pack_s 32 (f_chunk_id r),
           f_doc_uid := pack_s 32 (f_doc_uid r), f_doc_id := pack_s 32 (f_doc_id r) \<rparr>)"
    unfolding struct_unpack_def s1 s2 s3 s4 s5 s6 s7 s8 s9 s10 s11 s12
    using len u4 u5 u6 u7 u8 u9 u10 u11 u12 by simp
  with len show ?thesis by simp
qed

lemma rstrip_nul_ljust:
  assumes "length e \<le> n" and "e = [] \<or> last e \<noteq> 0"
  shows "rstrip_nul (ljust n 0 (take n e)) = e"
proof -
  have t: "take n e = e" using assms(1) by simp
  have "dropWhile (\<lambda>b. b = 0) (rev e) = rev e"
    using assms(2) by (cases e rule: rev_cases) simp_all
  then have "dropWhile (\<lambda>b. b = 0) (replicate (n - length e) 0 @ rev e) = rev e"
    by (simp add: dropWhile_append)
  then show ?thesis by (simp add: rstrip_nul_def ljust_def t)
qed

lemma encode_cp_last:
  assumes "encode_cp c = Some bs"
  shows "bs \<noteq> [] \<and> (last bs = 0 \<longrightarrow> c = 0)"
proof -
  have nz: "(of_nat (128 + x) :: byte) \<noteq> 0" if "x < 64" for x
  proof
    assume "(of_nat (128 + x) :: byte) = 0"
    then have "unat (of_nat (128 + x) :: byte) = 0" by (simp only: unat_0)
    moreover have "unat (of_nat (128 + x) :: byte) = 128 + x"
      using that by (intro byte_of_nat) simp
    ultimately show False by simp
  qed
  have z: "c = 0" if "(of_nat c :: byte) = 0" "c < 128"
  proof -
    have "unat (of_nat c :: byte) = c" using that(2) by (intro byte_of_nat) simp
    with that(1) show ?thesis by simp
  qed
  have m: "c mod 64 < 64" by simp
  show ?thesis using assms nz [OF m] z
    by (auto simp: encode_cp_def simp del: of_nat_add split: if_splits)
qed

lemma utf8_encode_last:
  "utf8_encode s = Inr e \<Longrightarrow> s = [] \<or> last s \<noteq> 0 \<Longrightarrow> e = [] \<or> last e \<noteq> 0"
proof (induction s arbitrary: e)
  case Nil
  then show ?case by simp
next
  case (Cons c s)
  from Cons.prems(1) obtain b r where b: "encode_cp c = Some b" and r: "utf8_encode s = Inr r"
    and e: "e = b @ r"
    by (auto simp: bind_err_eq_Inr split: option.splits)
  note bl = encode_cp_last [OF b]
  show ?case
  proof (cases "s = []")
    case True
    then have "r = []" using r by simp
    then show ?thesis using bl Cons.prems(2) True by (auto simp: e)
  next
    case False
    then have "s = [] \<or> last s \<noteq> 0" using Cons.prems(2) by simp
    from Cons.IH [OF r this] have "r = [] \<or> last r \<noteq> 0" .
    moreover have "r \<noteq> []" using r False
      by (cases s) (auto simp: bind_err_eq_Inr split: option.splits dest: encode_cp_last)
    ultimately show ?thesis by (simp add: e)
  qed
qed

lemma fits_field_decode:
  assumes "fits_field x" and "utf8_encode x = Inr e"
  shows "utf8_decode (rstrip_nul (pack_s 32 (ljust 32 0 (take 32 e)))) = Inr x"
proof -
  have l: "length e \<le> 32" using assms by (simp add: fits_field_def)
  have n: "e = [] \<or> last e \<noteq> 0"
    using utf8_encode_last [OF assms(2)] assms(1) by (simp add: fits_field_def)
  have "pack_s 32 (ljust 32 0 (take 32 e)) = ljust 32 0 (take 32 e)"
    by (rule pack_s_idem) (simp add: ljust_def)
  then show ?thesis
    using rstrip_nul_ljust [OF l n] decode_encode [OF assms(2)] by simp
qed

lemma write_index_record_Inr:
  assumes "write_index_record s cid duid did so len ck act os oe ci ps pe = Inr s'"
  obtains e1 e2 e3 rb where
    "utf8_encode cid = Inr e1" "utf8_encode duid = Inr e2" "utf8_encode did = Inr e3"
    "struct_pack \<lparr> f_chunk_id = ljust 32 0 (take 32 e1), f_doc_uid = ljust 32 0 (take 32 e2),
        f_doc_id = ljust 32 0 (take 32 e3), f_store_offset = so, f_length = len,
        f_checksum = ck, f_is_active = (if act then 1 else 0), f_offset_start = os,
        f_offset_end = oe, f_chunk_index = ci, f_page_start = ps, f_page_end = pe \<rparr> = Inr rb"
    "s' = s\<lparr>chunks_idx := append_file (chunks_idx s) rb\<rparr>"
  using assms unfolding write_index_record_def bind_err_eq_Inr Let_def by blast

lemma index_record_unpacked:
  assumes w: "write_index_record s cid duid did so len ck act os oe ci ps pe = Inr s'"
    and f: "fits_field cid" "fits_field duid" "fits_field did"
  shows "INDEX_RECORD_SIZE = 141 \<and>
    (\<exists>record f. chunks_idx s' = append_file (chunks_idx s) record
       \<and> length record = INDEX_RECORD_SIZE
       \<and> struct_unpack record = Inr f
       \<and> utf8_decode (rstrip_nul (f_chunk_id f)) = Inr cid
       \<and> utf8_decode (rstrip_nul (f_doc_uid f)) = Inr duid
       \<and> utf8_decode (rstrip_nul (f_doc_id f)) = Inr did
       \<and> f_store_offset f = so \<and> f_length f = len \<and> f_checksum f = ck
       \<and> (f_is_active f \<noteq> 0) = act
       \<and> f_offset_start f = os \<and> f_offset_end f = oe \<and> f_chunk_index f = ci
       \<and> f_page_start f = ps \<and> f_page_end f = pe)"
proof -
  from w obtain e1 e2 e3 rb where
    e: "utf8_encode cid = Inr e1" "utf8_encode duid = Inr e2" "utf8_encode did = Inr e3"
    and p: "struct_pack \<lparr> f_chunk_id = ljust 32 0 (take 32 e1), f_doc_uid = ljust 32 0 (take 32 e2),
        f_doc_id = ljust 32 0 (take 32 e3), f_store_offset = so, f_length = len,
        f_checksum = ck, f_is_active = (if act then 1 else 0), f_offset_start = os,
        f_offset_end = oe, f_chunk_index = ci, f_page_start = ps, f_page_end = pe \<rparr> = Inr rb"
    and s': "s' = s\<lparr>chunks_idx := append_file (chunks_idx s) rb\<rparr>"
    by (rule write_index_record_Inr)
  note u = struct_pack_Inr [OF p]
  note d1 = fits_field_decode [OF f(1) e(1)]
    and d2 = fits_field_decode [OF f(2) e(2)]
    and d3 = fits_field_decode [OF f(3) e(3)]
  have sz: "INDEX_RECORD_SIZE = 141" by (simp add: INDEX_RECORD_SIZE_def)
  show ?thesis
    apply (rule conjI [OF sz])
    apply (rule exI [of _ rb])
    apply (intro exI conjI)
                  apply (simp add: s')
                 apply (rule conjunct1 [OF u])
                apply (rule conjunct2 [OF u])
               apply (simp_all add: d1 d2 d3)
    done
qed


lemma write_index_record_success:
  assumes "utf8_encode cid = Inr e1" "utf8_encode duid = Inr e2" "utf8_encode did = Inr e3"
    and "0 \<le> so" "so < 2 ^ 64" "0 \<le> len" "len < 2 ^ 32" "0 \<le> ck" "ck < 2 ^ 32"
    and "0 \<le> os" "os < 2 ^ 64" "0 \<le> oe" "oe < 2 ^ 64" "0 \<le> ci" "ci < 2 ^ 32"
    and "- (2 ^ 31) \<le> ps" "ps < 2 ^ 31" "- (2 ^ 31) \<le> pe" "pe < 2 ^ 31"
  shows "\<exists>s'. write_index_record s cid duid did so len ck act os oe ci ps pe = Inr s'"
  using assms
  by (simp add: write_index_record_def struct_pack_def pack_unsigned_def pack_signed_def Let_def)

subsection \<open>Writing and reading chunks\<close>

lemma write_index_record_fields:
  assumes "write_index_record s cid duid did so len ck act os oe ci ps pe = Inr s'"
  shows "chunks_bin s' = chunks_bin s \<and> index s' = index s
     \<and> doc_uid_to_chunks s' = doc_uid_to_chunks s
     \<and> doc_id_to_source_path s' = doc_id_to_source_path s \<and> docs_meta s' = docs_meta s"
  using assms by (rule write_index_record_Inr) simp

lemma write_chunk_Inr:
  assumes "write_chunk s chunk compressed_data checksum = Inr s'"
  shows "chunks_bin s' = append_file (chunks_bin s) compressed_data
     \<and> index s' (chunk_id chunk) = Some
          \<lparr> rec_doc_uid = doc_uid chunk, rec_doc_id = doc_id chunk,
            rec_store_offset = int (file_size (chunks_bin s)),
            rec_length = int (length compressed_data),
            rec_checksum = checksum, rec_is_active = True,
            rec_offset_start = offset_start chunk, rec_offset_end = offset_end chunk,
            rec_chunk_index = chunk_index chunk, rec_page_start = page_start chunk,
            rec_page_end = page_end chunk \<rparr>
     \<and> doc_id_to_source_path s' = doc_id_to_source_path s"
proof -
  from assms obtain s2 where
    w: "write_index_record (s\<lparr>chunks_bin := append_file (chunks_bin s) compressed_data\<rparr>)
          (chunk_id chunk) (doc_uid chunk) (doc_id chunk) (int (file_size (chunks_bin s)))
          (int (length compressed_data)) checksum True (offset_start chunk) (offset_end chunk)
          (chunk_index chunk) (none_to_minus1 (page_start chunk))
          (none_to_minus1 (page_end chunk)) = Inr s2"
    and s': "s' = s2
              \<lparr> index := (index s2)(chunk_id chunk \<mapsto>
                   \<lparr> rec_doc_uid = doc_uid chunk, rec_doc_id = doc_id chunk,
                     rec_store_offset = int (file_size (chunks_bin s)),
                     rec_length = int (length compressed_data),
                     rec_checksum = checksum, rec_is_active = True,
                     rec_offset_start = offset_start chunk, rec_offset_end = offset_end chunk,
                     rec_chunk_index = chunk_index chunk, rec_page_start = page_start chunk,
                     rec_page_end = page_end chunk \<rparr>),
                doc_uid_to_chunks := (doc_uid_to_chunks s2)(doc_uid chunk \<mapsto>
                   (case doc_uid_to_chunks s2 (doc_uid chunk) of None \<Rightarrow> [] | Some l \<Rightarrow> l)
                     @ [chunk_id chunk]) \<rparr>"
    unfolding write_chunk_def Let_def bind_err_eq_Inr by blast
  from write_index_record_fields [OF w] show ?thesis by (simp add: s')
qed

lemma seek_read_appended:
  "seek_read (the (append_file f data)) (int (file_size f)) (int (length data)) = Inr data"
  by (cases f) (simp_all add: seek_read_def append_file_def file_size_def)

lemma read_chunk_active:
  assumes "index s cid = Some r" and "rec_is_active r" and "chunks_bin s = Some content"
    and "seek_read content (rec_store_offset r) (rec_length r) = Inr cd"
    and "decompress_data L cd = Inr d" and "utf8_decode d = Inr t"
    and "uint (xxh32_intdigest L d) = rec_checksum r"
  shows "\<exists>c. read_chunk L s cid = Inr (Some c) \<and> chunk_text c = t \<and> chunk_id c = cid"
  using assms by (simp add: read_chunk_def Let_def)

text \<open>
  C2. A chunk written with the compression of its UTF-8 text bytes and the xxhash32 of
  those bytes is read back with the same text; in particular \<open>read_chunk\<close> does not end
  in its checksum-mismatch error. The decompressor is assumed to invert the compressor.
\<close>

theorem chunk_roundtrip:
  assumes codec: "\<forall>level x. zstd_decompress L (zstd_compress L level x) = Inr x"
    and enc: "utf8_encode (chunk_text chunk) = Inr data"
    and w: "write_chunk s chunk (compress_data L data level)
              (uint (xxh32_intdigest L data)) = Inr s'"
  shows "\<exists>c. read_chunk L s' (chunk_id chunk) = Inr (Some c)
     \<and> chunk_text c = chunk_text chunk
     \<and> read_chunk L s' (chunk_id chunk) \<noteq> Inl ValueError"
proof -
  let ?cd = "compress_data L data level"
  note f = write_chunk_Inr [OF w]
  obtain content where bin: "chunks_bin s' = Some content"
    and content: "content = the (append_file (chunks_bin s) ?cd)"
    using f by (cases "chunks_bin s") (simp_all add: append_file_def)
  have rd: "seek_read content (int (file_size (chunks_bin s))) (int (length ?cd)) = Inr ?cd"
    unfolding content by (rule seek_read_appended)
  have dc: "decompress_data L ?cd = Inr data"
    using codec by (simp add: decompress_data_def compress_data_def)
  have tx: "utf8_decode data = Inr (chunk_text chunk)"
    by (rule decode_encode [OF enc])
  have "\<exists>c. read_chunk L s' (chunk_id chunk) = Inr (Some c)
      \<and> chunk_text c = chunk_text chunk \<and> chunk_id c = chunk_id chunk"
    by (rule read_chunk_active [OF conjunct1 [OF conjunct2 [OF f]] _ bin _ dc tx])
      (simp_all add: rd)
  then show ?thesis by auto
qed

subsection \<open>Tombstones\<close>

lemma load_records_short:
  "length rest < INDEX_RECORD_SIZE \<Longrightarrow> load_records rest m = Inr m"
  by (subst load_records.simps) simp

lemma load_records_step:
  "INDEX_RECORD_SIZE \<le> length rest \<Longrightarrow>
   load_records rest m =
     bind_err (load_record (take INDEX_RECORD_SIZE rest) m)
       (load_records (drop INDEX_RECORD_SIZE rest))"
  by (subst load_records.simps) (simp add: bind_err_def)

lemma load_records_single:
  "length rb = INDEX_RECORD_SIZE \<Longrightarrow> load_records rb m = load_record rb m"
  by (cases "load_record rb m")
     (simp_all add: load_records_step load_records_short INDEX_RECORD_SIZE_def)

lemma bind_err_assoc: "bind_err (bind_err m f) g = bind_err m (\<lambda>x. bind_err (f x) g)"
  by (cases m) simp_all

lemma load_records_append:
  "length old mod INDEX_RECORD_SIZE = 0 \<Longrightarrow>
   load_records (old @ rest) m = bind_err (load_records old m) (load_records rest)"
proof (induction old m rule: load_records.induct)
  case (1 old m)
  show ?case
  proof (cases "length old < INDEX_RECORD_SIZE")
    case True
    then have "old = []" using "1.prems" by (cases old) (auto simp: INDEX_RECORD_SIZE_def)
    then show ?thesis by (simp add: load_records_short INDEX_RECORD_SIZE_def)
  next
    case False
    then have ge: "INDEX_RECORD_SIZE \<le> length old" by simp
    have md: "length (drop INDEX_RECORD_SIZE old) mod INDEX_RECORD_SIZE = 0"
      using "1.prems" ge by (simp add: le_mod_geq)
    have t: "take INDEX_RECORD_SIZE (old @ rest) = take INDEX_RECORD_SIZE old"
      and d: "drop INDEX_RECORD_SIZE (old @ rest) = drop INDEX_RECORD_SIZE old @ rest"
      using ge by simp_all
    have l: "\<not> length (take INDEX_RECORD_SIZE old) < INDEX_RECORD_SIZE" using ge by simp
    show ?thesis
    proof (cases "load_record (take INDEX_RECORD_SIZE old) m")
      case (Inl e)
      then show ?thesis using ge by (simp add: load_records_step t)
    next
      case (Inr m')
      have "load_records (old @ rest) m = load_records (drop INDEX_RECORD_SIZE old @ rest) m'"
        using ge Inr by (simp add: load_records_step t d)
      also have "\<dots> = bind_err (load_records (drop INDEX_RECORD_SIZE old) m') (load_records rest)"
        by (rule "1.IH" [OF l Inr md])
      also have "\<dots> = bind_err (load_records old m) (load_records rest)"
        using ge Inr by (simp add: load_records_step)
      finally show ?thesis .
    qed
  qed
qed

lemma rstrip_nul_last: "rstrip_nul bs = [] \<or> last (rstrip_nul bs) \<noteq> 0"
proof (cases "dropWhile (\<lambda>b. b = 0) (rev bs)")
  case Nil
  then show ?thesis by (simp add: rstrip_nul_def)
next
  case (Cons x xs)
  then have "x \<noteq> 0" using hd_dropWhile [of "\<lambda>b. b = 0" "rev bs"] by auto
  then show ?thesis using Cons by (simp add: rstrip_nul_def)
qed

lemma length_rstrip_nul: "length (rstrip_nul bs) \<le> length bs"
  using length_dropWhile_le [of "\<lambda>b. b = 0" "rev bs"] by (simp add: rstrip_nul_def)

lemma encode_cp_zero: "encode_cp 0 = Some [0]"
  by (simp add: encode_cp_def)

lemma utf8_encode_trailing_nul:
  "utf8_encode k = Inr e \<Longrightarrow> k \<noteq> [] \<Longrightarrow> last k = 0 \<Longrightarrow> e \<noteq> [] \<and> last e = 0"
proof (induction k arbitrary: e)
  case Nil
  then show ?case by simp
next
  case (Cons c cs)
  from Cons.prems(1) obtain b r where b: "encode_cp c = Some b" and r: "utf8_encode cs = Inr r"
    and e: "e = b @ r"
    by (auto simp: bind_err_eq_Inr split: option.splits)
  show ?case
  proof (cases "cs = []")
    case True
    then show ?thesis using Cons.prems(3) b r by (auto simp: e encode_cp_zero)
  next
    case False
    then have "r \<noteq> [] \<and> last r = 0" using Cons.IH [OF r] Cons.prems(3) by simp
    then show ?thesis by (simp add: e)
  qed
qed

lemma decode_fits:
  assumes "utf8_decode (rstrip_nul bs) = Inr k" and "length bs \<le> 32"
  shows "fits_field k"
proof -
  have e: "utf8_encode k = Inr (rstrip_nul bs)" by (rule encode_decode [OF assms(1)])
  have l: "length (rstrip_nul bs) \<le> 32" using length_rstrip_nul [of bs] assms(2) by simp
  have "k = [] \<or> last k \<noteq> 0"
    using utf8_encode_trailing_nul [OF e] rstrip_nul_last [of bs] by auto
  then show ?thesis using e l by (simp add: fits_field_def)
qed

lemma load_record_Inr:
  assumes "load_record rb m = Inr m'"
  shows "\<exists>f k duid did. struct_unpack rb = Inr f
      \<and> utf8_decode (rstrip_nul (f_chunk_id f)) = Inr k
      \<and> fst m' = (fst m)(k \<mapsto> record_of_fields duid did f)"
  using assms unfolding load_record_def bind_err_eq_Inr Let_def by fastforce

lemma struct_unpack_id_length:
  "struct_unpack rb = Inr f \<Longrightarrow> length (f_chunk_id f) \<le> 32"
  by (auto simp: struct_unpack_def slice_def split: if_splits)

lemma load_record_keys:
  assumes "load_record rb m = Inr m'" and "\<forall>k \<in> dom (fst m). fits_field k"
  shows "\<forall>k \<in> dom (fst m'). fits_field k"
proof -
  from load_record_Inr [OF assms(1)] obtain f k duid did where
    u: "struct_unpack rb = Inr f" and d: "utf8_decode (rstrip_nul (f_chunk_id f)) = Inr k"
    and m': "fst m' = (fst m)(k \<mapsto> record_of_fields duid did f)"
    by blast
  have "fits_field k" by (rule decode_fits [OF d struct_unpack_id_length [OF u]])
  then show ?thesis using assms(2) by (auto simp: m')
qed

lemma load_records_keys:
  "load_records rest m = Inr m' \<Longrightarrow> \<forall>k \<in> dom (fst m). fits_field k \<Longrightarrow>
   \<forall>k \<in> dom (fst m'). fits_field k"
proof (induction rest m rule: load_records.induct)
  case (1 rest m)
  show ?case
  proof (cases "length rest < INDEX_RECORD_SIZE")
    case True
    then show ?thesis using "1.prems" by (simp add: load_records_short)
  next
    case False
    then have ge: "INDEX_RECORD_SIZE \<le> length rest" by simp
    from "1.prems"(1) obtain m1 where
      a: "load_record (take INDEX_RECORD_SIZE rest) m = Inr m1"
      and b: "load_records (drop INDEX_RECORD_SIZE rest) m1 = Inr m'"
      using ge by (auto simp: load_records_step bind_err_eq_Inr)
    have l: "\<not> length (take INDEX_RECORD_SIZE rest) < INDEX_RECORD_SIZE" using ge by simp
    show ?thesis
      by (rule "1.IH" [OF l a b load_record_keys [OF a "1.prems"(2)]])
  qed
qed

lemma tombstone_chunk_Inr:
  assumes "tombstone_chunk s cid = Inr s1" and "index s cid = Some r"
  shows "\<exists>e1 f rb. utf8_encode cid = Inr e1 \<and> struct_pack f = Inr rb
      \<and> f_chunk_id f = ljust 32 0 (take 32 e1) \<and> f_is_active f = 0
      \<and> chunks_idx s1 = append_file (chunks_idx s) rb
      \<and> chunks_bin s1 = chunks_bin s"
proof -
  from assms obtain s0 where
    w: "write_index_record s cid (rec_doc_uid r) (rec_doc_id r) (rec_store_offset r)
          (rec_length r) (rec_checksum r) False (rec_offset_start r) (rec_offset_end r)
          (rec_chunk_index r) (none_to_minus1 (rec_page_start r))
          (none_to_minus1 (rec_page_end r)) = Inr s0"
    and s1: "s1 = s0\<lparr>index := (index s0)(cid \<mapsto> r\<lparr>rec_is_active := False\<rparr>)\<rparr>"
    by (auto simp: tombstone_chunk_def bind_err_eq_Inr)
  from w show ?thesis
  proof (rule write_index_record_Inr)
    fix e1 e2 e3 rb
    let ?f = "\<lparr> f_chunk_id = ljust 32 0 (take 32 e1), f_doc_uid = ljust 32 0 (take 32 e2),
        f_doc_id = ljust 32 0 (take 32 e3), f_store_offset = rec_store_offset r,
        f_length = rec_length r, f_checksum = rec_checksum r,
        f_is_active = (if False then 1 else 0), f_offset_start = rec_offset_start r,
        f_offset_end = rec_offset_end r, f_chunk_index = rec_chunk_index r,
        f_page_start = none_to_minus1 (rec_page_start r),
        f_page_end = none_to_minus1 (rec_page_end r) \<rparr>"
    assume e: "utf8_encode cid = Inr e1" and p: "struct_pack ?f = Inr rb"
      and s0: "s0 = s\<lparr>chunks_idx := append_file (chunks_idx s) rb\<rparr>"
    show ?thesis
      using e p by (intro exI [of _ e1] exI [of _ ?f] exI [of _ rb]) (simp add: s1 s0)
  qed
qed

text \<open>
  C1, first part. A chunk id of the in-memory index is tombstoned and the index is
  loaded again from \<open>chunks.idx\<close> (a whole number of records before the tombstone):
  \<open>read_chunk\<close> of that id returns \<open>None\<close>. The last record of the file is the
  tombstone, and no other key of the loaded index can equal the id.
\<close>

theorem tombstone_reload_read_absent:
  assumes present: "index s cid = Some r"
    and aligned: "file_size (chunks_idx s) mod INDEX_RECORD_SIZE = 0"
    and tomb: "tombstone_chunk s cid = Inr s1"
    and load: "load_index L s1 = Inr s2"
  shows "read_chunk L s2 cid = Inr None"
proof -
  from tombstone_chunk_Inr [OF tomb present] obtain e1 f rb where
    e1: "utf8_encode cid = Inr e1" and p: "struct_pack f = Inr rb"
    and fid: "f_chunk_id f = ljust 32 0 (take 32 e1)" and fa: "f_is_active f = 0"
    and idx: "chunks_idx s1 = append_file (chunks_idx s) rb"
    by blast
  note u = struct_pack_Inr [OF p]
  define old where "old = (case chunks_idx s of None \<Rightarrow> [] | Some bs \<Rightarrow> bs)"
  have idx1: "chunks_idx s1 = Some (old @ rb)"
    by (simp add: idx old_def append_file_def split: option.splits)
  have al: "length old mod INDEX_RECORD_SIZE = 0"
    using aligned by (simp add: old_def file_size_def split: option.splits)
  from load obtain maps where
    lr: "load_records (old @ rb) (Map.empty, Map.empty) = Inr maps" and i2: "index s2 = fst maps"
    by (auto simp: load_index_def idx1 bind_err_eq_Inr)
  from lr obtain m1 where
    l1: "load_records old (Map.empty, Map.empty) = Inr m1" and l2: "load_record rb m1 = Inr maps"
    using u by (auto simp: load_records_append [OF al] bind_err_eq_Inr load_records_single)
  have k1: "\<forall>k \<in> dom (fst m1). fits_field k"
    by (rule load_records_keys [OF l1]) simp
  from load_record_Inr [OF l2] obtain f' k duid did where
    u': "struct_unpack rb = Inr f'" and d: "utf8_decode (rstrip_nul (f_chunk_id f')) = Inr k"
    and m: "fst maps = (fst m1)(k \<mapsto> record_of_fields duid did f')"
    by blast
  have f': "f' = f\<lparr> f_chunk_id := pack_s 32 (f_chunk_id f),
           f_doc_uid := pack_s 32 (f_doc_uid f), f_doc_id := pack_s 32 (f_doc_id f) \<rparr>"
    using u u' by simp
  have inactive: "\<not> rec_is_active (record_of_fields duid did f')"
    using fa by (simp add: f' record_of_fields_def)
  have kd: "utf8_decode (rstrip_nul (pack_s 32 (ljust 32 0 (take 32 e1)))) = Inr k"
    using d by (simp add: f' fid)
  show ?thesis
  proof (cases "cid = k")
    case True
    then show ?thesis using inactive by (simp add: read_chunk_def i2 m)
  next
    case False
    have "fst m1 cid = None"
    proof (rule ccontr)
      assume "fst m1 cid \<noteq> None"
      then have "fits_field cid" using k1 by (auto simp: dom_def)
      from fits_field_decode [OF this e1] kd have "k = cid" by simp
      with False show False by simp
    qed
    then show ?thesis using False by (simp add: read_chunk_def i2 m)
  qed
qed

subsection \<open>Index record round trip\<close>

lemma load_record_written:
  assumes u: "struct_unpack rb = Inr f"
    and d: "utf8_decode (rstrip_nul (f_chunk_id f)) = Inr cid"
      "utf8_decode (rstrip_nul (f_doc_uid f)) = Inr duid"
      "utf8_decode (rstrip_nul (f_doc_id f)) = Inr did"
  shows "\<exists>d2c. load_record rb maps = Inr ((fst maps)(cid \<mapsto> record_of_fields duid did f), d2c)"
  using u d by (simp add: load_record_def Let_def)

lemma load_index_appended:
  assumes idx: "chunks_idx s' = append_file (chunks_idx s) rb"
    and len: "length rb = INDEX_RECORD_SIZE"
    and al: "file_size (chunks_idx s) mod INDEX_RECORD_SIZE = 0"
    and ld: "load_index L s' = Inr s''"
    and lr: "\<And>maps. \<exists>d2c. load_record rb maps = Inr ((fst maps)(cid \<mapsto> r), d2c)"
  shows "index s'' cid = Some r"
proof -
  define old where "old = (case chunks_idx s of None \<Rightarrow> [] | Some bs \<Rightarrow> bs)"
  have idx1: "chunks_idx s' = Some (old @ rb)"
    by (simp add: idx old_def append_file_def split: option.splits)
  have al': "length old mod INDEX_RECORD_SIZE = 0"
    using al by (simp add: old_def file_size_def split: option.splits)
  from ld obtain maps where
    l: "load_records (old @ rb) (Map.empty, Map.empty) = Inr maps" and i2: "index s'' = fst maps"
    by (auto simp: load_index_def idx1 bind_err_eq_Inr)
  from l obtain m1 where l2: "load_record rb m1 = Inr maps"
    using len by (auto simp: load_records_append [OF al'] bind_err_eq_Inr load_records_single)
  from lr [of m1] l2 have "fst maps = (fst m1)(cid \<mapsto> r)" by auto
  then show ?thesis by (simp add: i2)
qed

text \<open>
  C6. The packed index record has 141 bytes, and a record appended by
  \<open>_write_index_record\<close> whose three identifiers fit their fields is read back by the
  loader: \<open>struct.unpack\<close>, \<open>rstrip\<close> of NUL bytes, UTF-8 decoding and \<open>bool\<close> of the
  activity byte give the twelve values that were written; one turn of the loop of
  \<open>load_index\<close> stores the dictionary of exactly these values under the chunk id; and
  \<open>load_index\<close> of the file (a whole number of records before the new one) maps the
  chunk id to that dictionary.
\<close>

theorem index_record_roundtrip:
  assumes w: "write_index_record s cid duid did so len ck act os oe ci ps pe = Inr s'"
    and f: "fits_field cid" "fits_field duid" "fits_field did"
  defines "written \<equiv>
     \<lparr> rec_doc_uid = duid, rec_doc_id = did, rec_store_offset = so, rec_length = len,
       rec_checksum = ck, rec_is_active = act, rec_offset_start = os, rec_offset_end = oe,
       rec_chunk_index = ci, rec_page_start = minus1_to_none ps,
       rec_page_end = minus1_to_none pe \<rparr>"
  shows "INDEX_RECORD_SIZE = 141 \<and>
    (\<exists>rb f. chunks_idx s' = append_file (chunks_idx s) rb
       \<and> length rb = INDEX_RECORD_SIZE
       \<and> struct_unpack rb = Inr f
       \<and> utf8_decode (rstrip_nul (f_chunk_id f)) = Inr cid
       \<and> utf8_decode (rstrip_nul (f_doc_uid f)) = Inr duid
       \<and> utf8_decode (rstrip_nul (f_doc_id f)) = Inr did
       \<and> f_store_offset f = so \<and> f_length f = len \<and> f_checksum f = ck
       \<and> (f_is_active f \<noteq> 0) = act
       \<and> f_offset_start f = os \<and> f_offset_end f = oe \<and> f_chunk_index f = ci
       \<and> f_page_start f = ps \<and> f_page_end f = pe
       \<and> (\<forall>maps. \<exists>d2c. load_record rb maps = Inr ((fst maps)(cid \<mapsto> written), d2c))
       \<and> (\<forall>L s''. file_size (chunks_idx s) mod INDEX_RECORD_SIZE = 0
              \<and> load_index L s' = Inr s''
            \<longrightarrow> index s'' cid = Some written))"
proof -
  from index_record_unpacked [OF w f] obtain rb g where
    sz: "INDEX_RECORD_SIZE = 141"
    and idx: "chunks_idx s' = append_file (chunks_idx s) rb"
    and len: "length rb = INDEX_RECORD_SIZE"
    and u: "struct_unpack rb = Inr g"
    and d: "utf8_decode (rstrip_nul (f_chunk_id g)) = Inr cid"
      "utf8_decode (rstrip_nul (f_doc_uid g)) = Inr duid"
      "utf8_decode (rstrip_nul (f_doc_id g)) = Inr did"
    and v: "f_store_offset g = so" "f_length g = len" "f_checksum g = ck"
      "(f_is_active g \<noteq> 0) = act" "f_offset_start g = os" "f_offset_end g = oe"
      "f_chunk_index g = ci" "f_page_start g = ps" "f_page_end g = pe"
    by (elim exE conjE)
  have rw: "record_of_fields duid did g = written"
    using v by (simp add: record_of_fields_def written_def)
  have lr: "\<exists>d2c. load_record rb maps = Inr ((fst maps)(cid \<mapsto> written), d2c)" for maps
    using load_record_written [OF u d, of maps] by (simp only: rw)
  have li: "index s'' cid = Some written"
    if "file_size (chunks_idx s) mod INDEX_RECORD_SIZE = 0" "load_index L s' = Inr s''"
    for L s''
    by (rule load_index_appended [OF idx len that lr])
  have lr': "\<forall>maps. \<exists>d2c. load_record rb maps = Inr ((fst maps)(cid \<mapsto> written), d2c)"
    using lr by (intro allI)
  have li': "\<forall>L s''. file_size (chunks_idx s) mod INDEX_RECORD_SIZE = 0
              \<and> load_index L s' = Inr s''
            \<longrightarrow> index s'' cid = Some written"
    using li by (intro allI impI) (elim conjE)
  have "chunks_idx s' = append_file (chunks_idx s) rb
       \<and> length rb = INDEX_RECORD_SIZE
       \<and> struct_unpack rb = Inr g
       \<and> utf8_decode (rstrip_nul (f_chunk_id g)) = Inr cid
       \<and> utf8_decode (rstrip_nul (f_doc_uid g)) = Inr duid
       \<and> utf8_decode (rstrip_nul (f_doc_id g)) = Inr did
       \<and> f_store_offset g = so \<and> f_length g = len \<and> f_checksum g = ck
       \<and> (f_is_active g \<noteq> 0) = act
       \<and> f_offset_start g = os \<and> f_offset_end g = oe \<and> f_chunk_index g = ci
       \<and> f_page_start g = ps \<and> f_page_end g = pe
       \<and> (\<forall>maps. \<exists>d2c. load_record rb maps = Inr ((fst maps)(cid \<mapsto> written), d2c))
       \<and> (\<forall>L s''. file_size (chunks_idx s) mod INDEX_RECORD_SIZE = 0
              \<and> load_index L s' = Inr s''
            \<longrightarrow> index s'' cid = Some written)"
    using idx len u d v lr' li' by (intro conjI)
  then show ?thesis using sz by blast
qed

theorem index_record_roundtrip_witness:
  "\<exists>s' rb s''.
     write_index_record ex_store (str_of ''aaaaaaaaaaaaaaaa'') (str_of ''bbbbbbbbbbbbbbbb'')
       (str_of ''cccccccccccccccc'') 1000 500 12345 True 0 100 0 (- 1) (- 1) = Inr s'
     \<and> fits_field (str_of ''aaaaaaaaaaaaaaaa'') \<and> fits_field (str_of ''bbbbbbbbbbbbbbbb'')
     \<and> fits_field (str_of ''cccccccccccccccc'')
     \<and> chunks_idx s' = Some rb \<and> length rb = 141
     \<and> file_size (chunks_idx ex_store) mod INDEX_RECORD_SIZE = 0
     \<and> load_index ex_libs s' = Inr s''
     \<and> index s'' (str_of ''aaaaaaaaaaaaaaaa'') = Some
          \<lparr> rec_doc_uid = str_of ''bbbbbbbbbbbbbbbb'', rec_doc_id = str_of ''cccccccccccccccc'',
            rec_store_offset = 1000, rec_length = 500, rec_checksum = 12345,
            rec_is_active = True, rec_offset_start = 0, rec_offset_end = 100,
            rec_chunk_index = 0, rec_page_start = None, rec_page_end = None \<rparr>"
proof -
  let ?a = "str_of ''aaaaaaaaaaaaaaaa''" and ?b = "str_of ''bbbbbbbbbbbbbbbb''"
    and ?c = "str_of ''cccccccccccccccc''"
  let ?w = "\<lparr> rec_doc_uid = ?b, rec_doc_id = ?c, rec_store_offset = 1000, rec_length = 500,
       rec_checksum = 12345, rec_is_active = True, rec_offset_start = 0, rec_offset_end = 100,
       rec_chunk_index = 0, rec_page_start = minus1_to_none (- 1),
       rec_page_end = minus1_to_none (- 1) \<rparr>"
  have f1: "fits_field ?a" by code_simp
  have f2: "fits_field ?b" by code_simp
  have f3: "fits_field ?c" by code_simp
  obtain e1 e2 e3 where e: "utf8_encode ?a = Inr e1" "utf8_encode ?b = Inr e2"
    "utf8_encode ?c = Inr e3"
    using f1 f2 f3 by (auto simp: fits_field_def split: sum.splits)
  obtain s' where w: "write_index_record ex_store ?a ?b ?c 1000 500 12345 True 0 100 0
       (- 1) (- 1) = Inr s'"
    using write_index_record_success [OF e, of 1000 500 12345 0 100 0 "- 1" "- 1" ex_store True]
    by auto
  have al: "file_size (chunks_idx ex_store) mod INDEX_RECORD_SIZE = 0"
    by (simp add: ex_store_def file_size_def)
  from index_record_roundtrip [OF w f1 f2 f3] obtain rb where
    idx: "chunks_idx s' = append_file (chunks_idx ex_store) rb"
    and len: "length rb = INDEX_RECORD_SIZE"
    and lr: "\<forall>maps. \<exists>d2c. load_record rb maps = Inr ((fst maps)(?a \<mapsto> ?w), d2c)"
    and li: "\<forall>L s''. file_size (chunks_idx ex_store) mod INDEX_RECORD_SIZE = 0
              \<and> load_index L s' = Inr s'' \<longrightarrow> index s'' ?a = Some ?w"
    by (elim exE conjE)
  have idx': "chunks_idx s' = Some rb"
    by (simp add: idx ex_store_def append_file_def)
  have meta: "docs_meta s' = None"
    using write_index_record_fields [OF w] by (simp add: ex_store_def)
  from spec [OF lr, of "(Map.empty, Map.empty)"] obtain d2c where
    l: "load_record rb (Map.empty, Map.empty) = Inr (Map.empty(?a \<mapsto> ?w), d2c)"
    by auto
  have "\<exists>s''. load_index ex_libs s' = Inr s''"
    by (simp add: load_index_def idx' load_docs_meta_def meta load_records_single [OF len] l)
  then obtain s'' where ld: "load_index ex_libs s' = Inr s''" by blast
  have i: "index s'' ?a = Some ?w"
    using li al ld by auto
  have m: "minus1_to_none (- 1) = None" by (simp add: minus1_to_none_def)
  have l141: "length rb = 141" using len by (simp add: INDEX_RECORD_SIZE_def)
  show ?thesis
    using w f1 f2 f3 idx' l141 al ld i unfolding m
    by (intro exI [of _ s'] exI [of _ rb] exI [of _ s''] conjI)
qed

subsection \<open>Search\<close>

lemma float_lt_simps [simp]:
  "float_lt (Num x) (Num y) = (x < y)" "float_lt NaN b = False" "float_lt a NaN = False"
  by (simp_all add: float_lt_def split: pyfloat.splits)

lemma float_le_simps [simp]:
  "float_le (Num x) (Num y) = (x \<le> y)" "float_le NaN b = False" "float_le a NaN = False"
  by (simp_all add: float_le_def split: pyfloat.splits)

lemma float_eq_simps [simp]:
  "float_eq (Num x) (Num y) = (x = y)" "float_eq NaN b = False" "float_eq a NaN = False"
  by (simp_all add: float_eq_def split: pyfloat.splits)

lemma not_NaN: "a \<noteq> NaN \<longleftrightarrow> (\<exists>x. a = Num x)"
  by (cases a) simp_all

lemma ranked_step:
  assumes "f x \<noteq> NaN" "f y \<noteq> NaN" and "\<not> float_lt (f y) (f x)" and "y < x"
  shows "ranked_before f y x"
proof -
  obtain a b where "f x = Num a" "f y = Num b" using assms(1,2) by (auto simp: not_NaN)
  then show ?thesis using assms(3,4) by (auto simp: ranked_before_def)
qed

lemma ranked_not_lt:
  assumes "ranked_before f y x" and "f x \<noteq> NaN" "f y \<noteq> NaN"
  shows "\<not> float_lt (f y) (f x)"
proof -
  obtain a b where "f x = Num a" "f y = Num b" using assms(2,3) by (auto simp: not_NaN)
  then show ?thesis using assms(1) by (auto simp: ranked_before_def)
qed

lemma not_lt_trans:
  assumes "a \<noteq> NaN" "b \<noteq> NaN" "c \<noteq> NaN"
    and "\<not> float_lt b a" "\<not> float_lt c b"
  shows "\<not> float_lt c a"
proof -
  obtain x y z where "a = Num x" "b = Num y" "c = Num z"
    using assms(1,2,3) by (auto simp: not_NaN)
  then show ?thesis using assms(4,5) by auto
qed

lemma no_descent_sorted:
  assumes "\<forall>x \<in> set ys. f x \<noteq> NaN" and "no_descent f ys"
  shows "sorted_wrt (\<lambda>x y. \<not> float_lt (f y) (f x)) ys"
  using assms
proof (induction f ys rule: no_descent.induct)
  case (1 f)
  show ?case by simp
next
  case (2 f x)
  show ?case by simp
next
  case (3 f x y ys)
  have tl: "sorted_wrt (\<lambda>x y. \<not> float_lt (f y) (f x)) (y # ys)"
    using "3.IH" "3.prems" by simp
  have xy: "\<not> float_lt (f y) (f x)" using "3.prems"(2) by simp
  have "\<not> float_lt (f z) (f x)" if "z \<in> set ys" for z
  proof -
    have "\<not> float_lt (f z) (f y)" using tl that by simp
    then show ?thesis
      using not_lt_trans [of "f x" "f y" "f z"] xy "3.prems"(1) that by simp
  qed
  then show ?case using tl xy by simp
qed

lemma run_ranked:
  assumes nn: "\<forall>x \<in> set ys. f x \<noteq> NaN" and nd: "no_descent f ys"
    and dec: "sorted_wrt (>) ys"
  shows "sorted_wrt (\<lambda>x y. ranked_before f y x) ys"
proof -
  have s: "sorted_wrt (\<lambda>x y. \<not> float_lt (f y) (f x)) ys"
    by (rule no_descent_sorted [OF nn nd])
  show ?thesis
    unfolding sorted_wrt_iff_nth_less
  proof (intro allI impI)
    fix i j
    assume ij: "i < j" and j: "j < length ys"
    have a: "\<not> float_lt (f (ys ! j)) (f (ys ! i))"
      using s ij j by (simp add: sorted_wrt_iff_nth_less)
    have b: "ys ! j < ys ! i"
      using dec ij j by (simp add: sorted_wrt_iff_nth_less)
    have "f (ys ! i) \<noteq> NaN" "f (ys ! j) \<noteq> NaN" using nn ij j by simp_all
    then show "ranked_before f (ys ! j) (ys ! i)" using a b by (intro ranked_step)
  qed
qed

lemma set_insort_lt [simp]: "set (insort_lt f x ys) = insert x (set ys)"
  by (induction ys) auto

lemma distinct_insort_lt [simp]: "distinct (insort_lt f x ys) = (x \<notin> set ys \<and> distinct ys)"
  by (induction ys) auto

lemma set_stable_sort [simp]: "set (stable_sort f xs) = set xs"
  by (induction xs) (simp_all add: stable_sort_def)

lemma distinct_stable_sort [simp]: "distinct (stable_sort f xs) = distinct xs"
  by (induction xs) (simp_all add: stable_sort_def set_stable_sort [unfolded stable_sort_def])

lemma insort_lt_desc:
  assumes "sorted_wrt (\<lambda>x y. ranked_before f y x) ys" and "\<forall>y \<in> set ys. y < z"
    and "f z \<noteq> NaN" and "\<forall>y \<in> set ys. f y \<noteq> NaN"
  shows "sorted_wrt (\<lambda>x y. ranked_before f y x) (insort_lt f z ys)"
  using assms
proof (induction ys)
  case Nil
  then show ?case by simp
next
  case (Cons y ys)
  show ?case
  proof (cases "float_lt (f y) (f z)")
    case False
    have "ranked_before f w z" if "w \<in> set (y # ys)" for w
    proof -
      have nw: "f w \<noteq> NaN" and ny: "f y \<noteq> NaN" using that Cons.prems(4) by auto
      have "\<not> float_lt (f w) (f y)"
      proof (cases "w = y")
        case True
        then show ?thesis using ny by (auto simp: not_NaN)
      next
        case False
        then have "ranked_before f w y" using that Cons.prems(1) by auto
        then show ?thesis by (rule ranked_not_lt [OF _ ny nw])
      qed
      then have "\<not> float_lt (f w) (f z)"
        using not_lt_trans [of "f z" "f y" "f w"] False Cons.prems(3) ny nw by simp
      moreover have "w < z" using that Cons.prems(2) by auto
      ultimately show ?thesis using Cons.prems(3) nw by (intro ranked_step)
    qed
    then show ?thesis using False Cons.prems(1) by simp
  next
    case True
    have "sorted_wrt (\<lambda>x y. ranked_before f y x) (insort_lt f z ys)"
      using Cons.IH Cons.prems by simp
    moreover have "\<forall>w \<in> set (insort_lt f z ys). ranked_before f w y"
      using True Cons.prems(1) by (auto simp: ranked_before_def)
    ultimately show ?thesis using True by simp
  qed
qed

lemma stable_sort_desc:
  assumes "sorted_wrt (>) zs" and "\<forall>z \<in> set zs. f z \<noteq> NaN"
  shows "sorted_wrt (\<lambda>x y. ranked_before f y x) (stable_sort f zs)"
  using assms
proof (induction zs)
  case Nil
  then show ?case by (simp add: stable_sort_def)
next
  case (Cons z zs)
  have "sorted_wrt (\<lambda>x y. ranked_before f y x) (stable_sort f zs)"
    using Cons by simp
  moreover have "\<forall>y \<in> set (stable_sort f zs). y < z" using Cons.prems by auto
  moreover have "f z \<noteq> NaN" "\<forall>y \<in> set (stable_sort f zs). f y \<noteq> NaN"
    using Cons.prems by auto
  ultimately have "sorted_wrt (\<lambda>x y. ranked_before f y x) (insort_lt f z (stable_sort f zs))"
    by (rule insort_lt_desc)
  then show ?case by (simp add: stable_sort_def)
qed

lemma list_sort_numbers:
  assumes "\<forall>x \<in> set xs. f x \<noteq> NaN"
  shows "list_sort other f xs = (if no_descent f xs then xs else stable_sort f xs)"
  using assms by (simp add: list_sort_def list_all_iff)

lemma sorted_reverse_ranked:
  assumes "\<forall>i < n. f i \<noteq> NaN"
  shows "sorted_wrt (ranked_before f) (sorted_reverse other f [0..<n])
     \<and> set (sorted_reverse other f [0..<n]) = {..<n}
     \<and> distinct (sorted_reverse other f [0..<n])"
proof -
  let ?ys = "rev [0..<n]"
  have dec: "sorted_wrt (>) ?ys"
    by (simp add: sorted_wrt_rev sorted_wrt_upt)
  have nn: "\<forall>x \<in> set ?ys. f x \<noteq> NaN" using assms by simp
  have ls: "list_sort other f ?ys = (if no_descent f ?ys then ?ys else stable_sort f ?ys)"
    by (rule list_sort_numbers [OF nn])
  have "sorted_wrt (\<lambda>x y. ranked_before f y x) (list_sort other f ?ys)"
    unfolding ls using run_ranked [OF nn _ dec] stable_sort_desc [OF dec nn] by simp
  moreover have "set (list_sort other f ?ys) = {..<n}" unfolding ls by auto
  moreover have "distinct (list_sort other f ?ys)" unfolding ls by simp
  ultimately show ?thesis by (simp add: sorted_reverse_def sorted_wrt_rev)
qed

lemma collect_results_map:
  "\<forall>i \<in> set is. i < length ids \<Longrightarrow>
   collect_results ids scores is = Inr (map (\<lambda>i. (ids ! i, scores ! i)) is)"
  by (induction "is") (simp_all add: bind_err_def)

lemma slice_to_nonneg: "0 \<le> k \<Longrightarrow> slice_to k xs = take (nat k) xs"
  by (simp add: slice_to_def)

lemma get_scores_nth: "i < corpus_size bm \<Longrightarrow> get_scores bm q ! i = doc_score bm i q"
  by (simp add: get_scores_def)

lemma length_get_scores [simp]: "length (get_scores bm q) = corpus_size bm"
  by (simp add: get_scores_def)

text \<open>
  C9 (as amended). For a built index (one score per entry of \<open>chunk_ids\<close>), a query none
  of whose scores is NaN and a non-negative \<open>top_k\<close>, \<open>search\<close> returns at most
  \<open>top_k\<close> pairs, sorted by score descending, where of two entries with equal scores the
  one at the lower corpus position comes first; when the query has a token, they are the
  first \<open>top_k\<close> entries of such a ranking of the whole corpus. This holds whatever the
  sort does with lists it is free to order (\<open>other\<close>).
\<close>

theorem search_ranked:
  fixes idx :: "('r::linorder) pyfloat BM25Index" and db :: unicode_db and query :: pystr
  defines "tokens \<equiv> tokenize_query db (tokenizer idx) query"
  assumes b: "bm25 idx = Some bm" and n: "corpus_size bm = length (chunk_ids idx)"
    and k: "0 \<le> top_k"
    and nn: "\<forall>i < corpus_size bm. doc_score bm i tokens \<noteq> NaN"
  defines "score \<equiv> \<lambda>i. doc_score bm i tokens"
  shows "\<exists>results ranking.
      search db other idx query top_k = Inr results
      \<and> length results \<le> nat top_k
      \<and> sorted_wrt (\<lambda>a b. float_le (snd b) (snd a)) results
      \<and> results = map (\<lambda>i. (chunk_ids idx ! i, score i)) ranking
      \<and> set ranking \<subseteq> {..<length (chunk_ids idx)}
      \<and> sorted_wrt (ranked_before score) ranking
      \<and> (tokens \<noteq> [] \<longrightarrow>
           (\<exists>full. set full = {..<length (chunk_ids idx)} \<and> distinct full
              \<and> sorted_wrt (ranked_before score) full \<and> ranking = take (nat top_k) full))"
proof (cases "tokens = []")
  case True
  then have "search db other idx query top_k = Inr []"
    using b by (simp add: search_def tokens_def)
  then show ?thesis using True by simp
next
  case False
  let ?sc = "get_scores bm tokens"
  let ?N = "length (chunk_ids idx)"
  let ?full = "sorted_reverse other (\<lambda>i. ?sc ! i) [0..<?N]"
  let ?ranking = "take (nat top_k) ?full"
  let ?results = "map (\<lambda>i. (chunk_ids idx ! i, score i)) ?ranking"
  have sc: "?sc ! i = score i" if "i < ?N" for i
    using that n by (simp add: get_scores_nth score_def)
  have nn': "\<forall>i < ?N. ?sc ! i \<noteq> NaN" using nn n by (simp add: get_scores_nth)
  note r = sorted_reverse_ranked [OF nn', of other]
  have setf: "set ?full = {..<?N}" using r by simp
  have dist: "distinct ?full" using r by simp
  have sub: "set ?ranking \<subseteq> {..<?N}" using set_take_subset [of "nat top_k" ?full] setf by blast
  have agree: "ranked_before (\<lambda>i. ?sc ! i) i j = ranked_before score i j"
    if "i < ?N" "j < ?N" for i j
    using that by (simp add: ranked_before_def sc)
  have "sorted_wrt (ranked_before (\<lambda>i. ?sc ! i)) ?full" using r by simp
  then have full: "sorted_wrt (ranked_before score) ?full"
    by (rule sorted_wrt_mono_rel [rotated]) (use agree setf in auto)
  then have rk: "sorted_wrt (ranked_before score) ?ranking" by (rule sorted_wrt_take)
  have "collect_results (chunk_ids idx) ?sc ?ranking
      = Inr (map (\<lambda>i. (chunk_ids idx ! i, ?sc ! i)) ?ranking)"
    using sub by (intro collect_results_map) auto
  also have "map (\<lambda>i. (chunk_ids idx ! i, ?sc ! i)) ?ranking = ?results"
    using sub by (intro map_cong refl) (auto simp: sc)
  finally have c: "collect_results (chunk_ids idx) ?sc ?ranking = Inr ?results" .
  have s: "search db other idx query top_k = Inr ?results"
    using b False k n c by (simp add: search_def tokens_def [symmetric] Let_def slice_to_nonneg)
  have len: "length ?results \<le> nat top_k" by simp
  have le: "float_le (score j) (score i)"
    if h: "ranked_before score i j" "i < ?N" "j < ?N" for i j
  proof -
    have "score i \<noteq> NaN" "score j \<noteq> NaN"
      using nn n h(2,3) by (simp_all add: score_def)
    then obtain a c where "score i = Num a" "score j = Num c"
      unfolding not_NaN by blast
    then show ?thesis using h(1) by (auto simp: ranked_before_def)
  qed
  have "sorted_wrt (\<lambda>i j. float_le (score j) (score i)) ?ranking"
    using rk by (rule sorted_wrt_mono_rel [rotated]) (use le sub in auto)
  then have srt: "sorted_wrt (\<lambda>a b. float_le (snd b) (snd a)) ?results"
    by (simp add: sorted_wrt_map)
  have ex: "\<exists>full. set full = {..<?N} \<and> distinct full
      \<and> sorted_wrt (ranked_before score) full \<and> ?ranking = take (nat top_k) full"
    using setf dist full by (intro exI [of _ ?full]) simp
  show ?thesis
    using s len srt sub rk ex by (intro exI [of _ ?results] exI [of _ ?ranking]) simp
qed

lemma build_built:
  assumes "build db okapi idx chunks = Inr idx'"
  shows "\<exists>bm. bm25 idx' = Some bm \<and> corpus_size bm = length (chunk_ids idx')
     \<and> chunk_ids idx' = map chunk_id chunks \<and> tokenizer idx' = tokenizer idx"
  using assms by (auto simp: build_def Let_def split: if_splits)

lemma build_scores:
  assumes "build db okapi idx chunks = Inr idx'" and "bm25 idx' = Some bm"
  shows "doc_score bm i q = okapi (map (\<lambda>c. tokenize db (tokenizer idx) (chunk_text c)) chunks) i q"
  using assms by (auto simp: build_def Let_def split: if_splits)

lemma ex_index_built: "build ex_db ex_okapi (new_index ex_config) ex_chunks = Inr ex_index"
  by (simp add: ex_index_def build_def ex_chunks_def Let_def)

theorem search_ranked_witness:
  "(\<exists>bm. bm25 ex_index = Some bm \<and> corpus_size bm = length (chunk_ids ex_index)
       \<and> (\<forall>i < corpus_size bm.
             doc_score bm i (tokenize_query ex_db (tokenizer ex_index) (str_of ''Machine''))
               \<noteq> NaN))
   \<and> (0::int) \<le> 2
   \<and> (\<exists>results. search ex_db ex_other ex_index (str_of ''Machine'') 2 = Inr results
         \<and> length results \<le> 2 \<and> sorted_wrt (\<lambda>a b. float_le (snd b) (snd a)) results)"
proof -
  from build_built [OF ex_index_built] obtain bm where
    b: "bm25 ex_index = Some bm" and n: "corpus_size bm = length (chunk_ids ex_index)"
    by blast
  have k: "(0::int) \<le> 2" by simp
  have num: "doc_score bm i q \<noteq> NaN" for i q
    unfolding build_scores [OF ex_index_built b] by (simp add: ex_okapi_def)
  have nn: "\<forall>i < corpus_size bm.
      doc_score bm i (tokenize_query ex_db (tokenizer ex_index) (str_of ''Machine'')) \<noteq> NaN"
    by (intro allI impI num)
  have "\<exists>results ranking.
      search ex_db ex_other ex_index (str_of ''Machine'') 2 = Inr results
      \<and> length results \<le> nat 2
      \<and> sorted_wrt (\<lambda>a b. float_le (snd b) (snd a)) results
      \<and> results = map (\<lambda>i. (chunk_ids ex_index ! i,
            doc_score bm i (tokenize_query ex_db (tokenizer ex_index) (str_of ''Machine''))))
          ranking
      \<and> set ranking \<subseteq> {..<length (chunk_ids ex_index)}
      \<and> sorted_wrt (ranked_before (\<lambda>i. doc_score bm i
            (tokenize_query ex_db (tokenizer ex_index) (str_of ''Machine'')))) ranking
      \<and> (tokenize_query ex_db (tokenizer ex_index) (str_of ''Machine'') \<noteq> [] \<longrightarrow>
           (\<exists>full. set full = {..<length (chunk_ids ex_index)} \<and> distinct full
              \<and> sorted_wrt (ranked_before (\<lambda>i. doc_score bm i
                   (tokenize_query ex_db (tokenizer ex_index) (str_of ''Machine'')))) full
              \<and> ranking = take (nat 2) full))"
    by (rule search_ranked [OF b n k nn])
  then obtain results where
    r: "search ex_db ex_other ex_index (str_of ''Machine'') 2 = Inr results"
    and l: "length results \<le> nat 2"
    and o: "sorted_wrt (\<lambda>a b. float_le (snd b) (snd a)) results"
    by (elim exE conjE)
  have h: "\<exists>bm. bm25 ex_index = Some bm \<and> corpus_size bm = length (chunk_ids ex_index)
       \<and> (\<forall>i < corpus_size bm.
             doc_score bm i (tokenize_query ex_db (tokenizer ex_index) (str_of ''Machine''))
               \<noteq> NaN)"
    using b n nn by (intro exI [of _ bm] conjI)
  have c: "\<exists>results. search ex_db ex_other ex_index (str_of ''Machine'') 2 = Inr results
         \<and> length results \<le> 2 \<and> sorted_wrt (\<lambda>a b. float_le (snd b) (snd a)) results"
    using r l o by (intro exI [of _ results]) simp
  show ?thesis using h k c by (intro conjI)
qed

text \<open>
  Two inputs at which the claim fails. With \<open>top_k = -1\<close> the slice keeps all but the
  last entry of the ranking: two results from a corpus of three, which is more than
  \<open>top_k\<close>. With the scores 1, NaN, 2 no key is less than the key before it in the
  reversed list, the sort leaves the list as it is, and the results are not in
  descending order of score.
\<close>

theorem search_negative_top_k:
  "search ex_db ex_other ex_index (str_of ''Machine'') (- 1)
     = Inr [(str_of ''c0'', Num 1), (str_of ''c2'', Num 1)]
   \<and> \<not> int (length [(str_of ''c0'', Num (1::int)), (str_of ''c2'', Num 1)]) \<le> - 1
   \<and> search ex_db ex_other ex_nan_index (str_of ''Machine'') 3
     = Inr [(str_of ''c0'', Num 1), (str_of ''c1'', NaN), (str_of ''c2'', Num 2)]
   \<and> \<not> sorted_wrt (\<lambda>a b. float_le (snd b) (snd a))
         [(str_of ''c0'', Num (1::int)), (str_of ''c1'', NaN), (str_of ''c2'', Num 2)]"
  by code_simp

lemma findall_words_none:
  "\<forall>c \<in> set s. \<not> w c \<Longrightarrow> findall_words w [] s = []"
  by (induction s) simp_all

lemma tokenize_no_word_chars:
  "\<forall>c \<in> set (str_lower db txt). \<not> is_word_char db c \<Longrightarrow> tokenize db tk txt = []"
  by (simp add: tokenize_def findall_words_none)

text \<open>
  C10. On an index that has been built, a query whose tokenization is empty makes
  \<open>search\<close>, and so \<open>retrieve_ids\<close>, return the empty list, whatever \<open>top_k\<close> is; no
  error is raised. A query without word characters is such a query
  (\<open>tokenize_no_word_chars\<close>).
\<close>

theorem search_no_tokens:
  assumes "bm25 idx = Some bm" and "tokenize_query db (tokenizer idx) query = []"
  shows "search db other idx query top_k = Inr []
     \<and> retrieve_ids db other idx query top_k = Inr []"
  using assms by (simp add: search_def retrieve_ids_def)

theorem search_no_tokens_witness:
  "bm25 ex_index \<noteq> None
   \<and> tokenize_query ex_db (tokenizer ex_index) (str_of '' ?! ... '') = []
   \<and> search ex_db ex_other ex_index (str_of '' ?! ... '') 5 = Inr []
   \<and> retrieve_ids ex_db ex_other ex_index (str_of '' ?! ... '') (- 3) = Inr []"
proof -
  from build_built [OF ex_index_built] obtain bm where b: "bm25 ex_index = Some bm"
    by blast
  have t: "tokenize_query ex_db (tokenizer ex_index) (str_of '' ?! ... '') = []"
    by code_simp
  from search_no_tokens [OF b t, of ex_other 5] search_no_tokens [OF b t, of ex_other "- 3"] b t
  show ?thesis by simp
qed

subsection \<open>Manifest validation\<close>

lemma feed_blocks_append: "feed_blocks rest h = h @ rest"
proof (induction rest h rule: feed_blocks.induct)
  case (1 rest h)
  show ?case
  proof (cases "take 4096 rest = []")
    case True
    then have "rest = []" by simp
    then show ?thesis by (simp add: feed_blocks.simps)
  next
    case False
    have "feed_blocks rest h = feed_blocks (drop 4096 rest) (h @ take 4096 rest)"
      using False by (subst feed_blocks.simps) (simp add: Let_def)
    also have "\<dots> = (h @ take 4096 rest) @ drop 4096 rest"
      using "1.IH" [OF refl False] .
    finally show ?thesis by simp
  qed
qed

lemma compute_file_checksum_whole:
  "compute_file_checksum sha content = hexdigest (sha content)"
  by (simp add: compute_file_checksum_def feed_blocks_append)

lemma required_exist_iff: "required_exist d fs \<longleftrightarrow> (\<forall>f \<in> set fs. f \<in> dom d)"
  by (induction fs) auto

lemma checksums_match_iff:
  "checksums_match sha d cs \<longleftrightarrow>
     (\<forall>(f, e) \<in> set cs. \<exists>c. d f = Some c \<and> hexdigest (sha c) = e)"
proof (induction cs)
  case Nil
  show ?case by simp
next
  case (Cons p cs)
  obtain f e where p: "p = (f, e)" by (cases p)
  show ?case
  proof (cases "d f")
    case None
    then show ?thesis by (simp add: p)
  next
    case (Some c)
    then show ?thesis using Cons.IH by (simp add: p compute_file_checksum_whole)
  qed
qed

lemma validate_manifest_iff:
  "validate_manifest sha m d \<longleftrightarrow>
      (\<forall>f \<in> set required_files. f \<in> dom d) \<and>
      (\<forall>(f, e) \<in> set (checksums m). \<exists>c. d f = Some c \<and> hexdigest (sha c) = e)"
  unfolding validate_manifest_def required_exist_iff checksums_match_iff by simp

lemma validate_manifest_changed:
  assumes "(f, e) \<in> set (checksums m)" and "hexdigest (sha c') \<noteq> e"
  shows "\<not> validate_manifest sha m (d(f \<mapsto> c'))"
proof
  assume "validate_manifest sha m (d(f \<mapsto> c'))"
  then have "\<forall>(g, e) \<in> set (checksums m).
      \<exists>c. (d(f \<mapsto> c')) g = Some c \<and> hexdigest (sha c) = e"
    unfolding validate_manifest_iff by (rule conjunct2)
  from bspec [OF this assms(1)] have "hexdigest (sha c') = e" by simp
  with assms(2) show False by simp
qed

lemma load_artifact_strict:
  "load_artifact sha read_manifest load_rest d True = Inr a \<longleftrightarrow>
     load_rest d = Inr a \<and> (\<exists>m. read_manifest d = Inr m \<and> validate_manifest sha m d)"
proof (cases "load_rest d")
  case (Inl e)
  then show ?thesis by (simp add: load_artifact_def)
next
  case r: (Inr b)
  show ?thesis
  proof (cases "read_manifest d")
    case (Inl e)
    then show ?thesis using r by (simp add: load_artifact_def)
  next
    case (Inr m)
    then show ?thesis using r by (simp add: load_artifact_def)
  qed
qed

lemma load_artifact_changed:
  assumes "(f, e) \<in> set (checksums m)" and "hexdigest (sha c') \<noteq> e"
    and "read_manifest (d(f \<mapsto> c')) = Inr m"
  shows "\<exists>err. load_artifact sha read_manifest load_rest (d(f \<mapsto> c')) True = Inl err"
proof (cases "load_artifact sha read_manifest load_rest (d(f \<mapsto> c')) True")
  case (Inl err)
  then show ?thesis by blast
next
  case (Inr a)
  then have "validate_manifest sha m (d(f \<mapsto> c'))"
    using assms(3) unfolding load_artifact_strict by simp
  moreover have "\<not> validate_manifest sha m (d(f \<mapsto> c'))"
    using assms(1,2) by (rule validate_manifest_changed)
  ultimately show ?thesis by simp
qed

text \<open>
  C7. Strict validation answers True exactly when the four required files exist and
  every file listed in \<open>checksums\<close> exists and hashes to the stored digest; replacing the
  bytes of a listed file by bytes with another digest makes it answer False, and a strict
  load of the directory, whose manifest lists that file, then fails.
\<close>

theorem validate_manifest_strict:
  "(validate_manifest sha m d \<longleftrightarrow>
      (\<forall>f \<in> set required_files. f \<in> dom d) \<and>
      (\<forall>(f, e) \<in> set (checksums m). \<exists>c. d f = Some c \<and> hexdigest (sha c) = e))
   \<and> (\<forall>f e c'. (f, e) \<in> set (checksums m) \<and> hexdigest (sha c') \<noteq> e
         \<longrightarrow> \<not> validate_manifest sha m (d(f \<mapsto> c')))
   \<and> (\<forall>f e c' read_manifest.
         (f, e) \<in> set (checksums m) \<and> hexdigest (sha c') \<noteq> e
           \<and> read_manifest (d(f \<mapsto> c')) = Inr m
         \<longrightarrow> (\<exists>err. load_artifact sha read_manifest load_rest (d(f \<mapsto> c')) True = Inl err))"
proof (intro conjI)
  show "validate_manifest sha m d \<longleftrightarrow>
      (\<forall>f \<in> set required_files. f \<in> dom d) \<and>
      (\<forall>(f, e) \<in> set (checksums m). \<exists>c. d f = Some c \<and> hexdigest (sha c) = e)"
    by (rule validate_manifest_iff)
  show "\<forall>f e c'. (f, e) \<in> set (checksums m) \<and> hexdigest (sha c') \<noteq> e
         \<longrightarrow> \<not> validate_manifest sha m (d(f \<mapsto> c'))"
    using validate_manifest_changed by blast
  show "\<forall>f e c' read_manifest.
         (f, e) \<in> set (checksums m) \<and> hexdigest (sha c') \<noteq> e
           \<and> read_manifest (d(f \<mapsto> c')) = Inr m
         \<longrightarrow> (\<exists>err. load_artifact sha read_manifest load_rest (d(f \<mapsto> c')) True = Inl err)"
    using load_artifact_changed by (intro allI impI) (elim conjE)
qed

theorem validate_manifest_strict_witness:
  "validate_manifest ex_sha ex_manifest ex_dir
   \<and> load_artifact ex_sha (\<lambda>d. Inr ex_manifest) (\<lambda>d. Inr ()) ex_dir True = Inr ()
   \<and> \<not> validate_manifest ex_sha ex_manifest (ex_dir(str_of ''chunks.bin'' \<mapsto> [3, 2]))
   \<and> (\<exists>err. load_artifact ex_sha (\<lambda>d. Inr ex_manifest) (\<lambda>d. Inr ())
                (ex_dir(str_of ''chunks.bin'' \<mapsto> [3, 2])) True = Inl err)"
proof -
  have r: "\<forall>f \<in> set required_files. f \<in> dom ex_dir"
    by (simp add: required_files_def ex_dir_def str_of_def)
  have c: "\<forall>(f, e) \<in> set (checksums ex_manifest).
      \<exists>c. ex_dir f = Some c \<and> hexdigest (ex_sha c) = e"
    by (simp add: ex_manifest_def ex_dir_def str_of_def)
  have l: "(str_of ''chunks.bin'', hexdigest (ex_sha [1, 2])) \<in> set (checksums ex_manifest)"
    by (simp add: ex_manifest_def)
  have n: "hexdigest (ex_sha [3, 2]) \<noteq> hexdigest (ex_sha [1, 2])"
    by code_simp
  note t = validate_manifest_strict [of ex_sha ex_manifest ex_dir "\<lambda>d. Inr ()"]
  have v: "validate_manifest ex_sha ex_manifest ex_dir"
    using conjunct1 [OF t] r c by blast
  have nv: "\<not> validate_manifest ex_sha ex_manifest (ex_dir(str_of ''chunks.bin'' \<mapsto> [3, 2]))"
    using conjunct1 [OF conjunct2 [OF t]] l n by blast
  have ld: "load_artifact ex_sha (\<lambda>d. Inr ex_manifest) (\<lambda>d. Inr ()) ex_dir True = Inr ()"
    using v by (simp add: load_artifact_strict)
  have nl: "\<exists>err. load_artifact ex_sha (\<lambda>d. Inr ex_manifest) (\<lambda>d. Inr ())
                (ex_dir(str_of ''chunks.bin'' \<mapsto> [3, 2])) True = Inl err"
    using conjunct2 [OF conjunct2 [OF t], rule_format,
        of "str_of ''chunks.bin''" "hexdigest (ex_sha [1, 2])" "[3, 2]" "\<lambda>d. Inr ex_manifest"]
      l n by simp
  show ?thesis using v ld nv nl by (intro conjI)
qed

end
